theory Spec2Isabelle
  imports Complex_Main "HOL-Library.AList"
begin

section \<open>Data model\<close>

text \<open>
  The simulation of \<^verbatim>\<open>debt_sim.py\<close> works on Python floats held in pandas
  containers. For the shape of the schedules and of the merged tables (row counts, labels,
  which entry is zero, which contribution goes where) amounts, rates and returns are
  modelled as \<^typ>\<open>real\<close>: these properties are stated for the arithmetic the code
  writes down. Whether the two loops return at all depends on the rounding of the float
  operations; the loops in double arithmetic are given separately, and the properties
  about returning are stated on them.

  A period is a business-month-end date. Dates are modelled by their ordinal among the
  business month ends, so that \<^verbatim>\<open>d + BMonthEnd(n = x)\<close> is \<open>d + x\<close>.

  A pandas Series is the list of its (label, value) pairs, in order. Label lookup
  follows pandas for an index with unique labels, which is all the code is written for.
\<close>

type_synonym period = nat

type_synonym series = "(period \<times> real) list"

text \<open>
  The exceptions the code can raise. \<open>AssertionError\<close> is the failed
  \<^verbatim>\<open>assert len(return_series) > n_months, "not enough investment periods"\<close>.
  A loop that never ends is the value \<open>None\<close> of the enclosing option.
\<close>

datatype error = AssertionError | IndexError | KeyError | UnboundLocalError | ZeroDivisionError

text \<open>The DataFrame of \<^verbatim>\<open>debt_schedule\<close>: its index and its two columns.\<close>

record debt_frame =
  index :: "period list"
  payment :: "real list"
  loan_schedule :: "real list"

text \<open>The merged table of the two comparators has the column \<^verbatim>\<open>inv_value\<close> as well.\<close>

record agg_frame = debt_frame +
  inv_value :: "real list"


section \<open>Payoff horizon: \<^verbatim>\<open>payoff_nmonths\<close>\<close>

text \<open>
  \<^verbatim>\<open>
  debt = debt_amount
  month = 0
  while debt > 0.:
      new_bal = debt * (1. + int_rate / 12.) - debt_payment
      debt = new_bal
      month += 1
  return month
  \<close>
  Here the update is computed exactly; \<open>payoff_loop_f64\<close> below is the same loop with
  every operation rounded to a double.
\<close>

partial_function (option) payoff_loop :: "real \<Rightarrow> real \<Rightarrow> real \<Rightarrow> nat \<Rightarrow> nat option" where
  "payoff_loop debt_payment int_rate debt month =
     (if debt > 0
      then payoff_loop debt_payment int_rate (debt * (1 + int_rate / 12) - debt_payment) (month + 1)
      else Some month)"

declare payoff_loop.simps [code]

definition payoff_nmonths :: "real \<Rightarrow> real \<Rightarrow> real \<Rightarrow> nat option" where
  "payoff_nmonths debt_amount debt_payment int_rate =
     payoff_loop debt_payment int_rate debt_amount 0"


section \<open>Amortization schedule: \<^verbatim>\<open>debt_schedule\<close>\<close>

text \<open>
  \<^verbatim>\<open>
  debt_schedule = [debt_amount]
  debt = debt_amount
  month = 0
  paid_in = [0.]
  while debt > 0.:
      new_bal = debt * (1. + int_rate / 12.) - debt_payment
      debt_schedule.append( new_bal )
      debt = new_bal
      month += 1
      paid_in.append ( debt_payment )
  \<close>
  The local \<^verbatim>\<open>new_bal\<close> is unbound until the loop body has run once: it is an
  option in the loop state.
\<close>

partial_function (option) debt_schedule_loop ::
  "real \<Rightarrow> real \<Rightarrow> real list \<Rightarrow> real \<Rightarrow> nat \<Rightarrow> real list \<Rightarrow> real option
     \<Rightarrow> (real list \<times> nat \<times> real list \<times> real option) option" where
  "debt_schedule_loop debt_payment int_rate schedule debt month paid_in new_bal =
     (if debt > 0
      then debt_schedule_loop debt_payment int_rate
             (schedule @ [debt * (1 + int_rate / 12) - debt_payment])
             (debt * (1 + int_rate / 12) - debt_payment)
             (month + 1)
             (paid_in @ [debt_payment])
             (Some (debt * (1 + int_rate / 12) - debt_payment))
      else Some (schedule, month, paid_in, new_bal))"

declare debt_schedule_loop.simps [code]

text \<open>
  \<^verbatim>\<open>
  debt_schedule[-1] = 0.
  paid_in[-1] = debt_payment + new_bal
  index = map(lambda x: d + BMonthEnd(n = x), range(month + 1))
  return pandas.DataFrame({'payment': paid_in, 'loan_schedule': debt_schedule}, index = index)
  \<close>
  The start date is taken as a date (the two strategies pass
  \<^verbatim>\<open>return_series.index[0]\<close>); parsing it from a string is not modelled.
  Both lists are non-empty, so the assignments at \<open>-1\<close> replace the last element.
  Reading \<^verbatim>\<open>new_bal\<close> when the loop never ran raises \<open>UnboundLocalError\<close>.
\<close>

definition debt_schedule :: "period \<Rightarrow> real \<Rightarrow> real \<Rightarrow> real \<Rightarrow> (error + debt_frame) option" where
  "debt_schedule start_date debt_amount int_rate debt_payment =
     (case debt_schedule_loop debt_payment int_rate [debt_amount] debt_amount 0 [0] None of
        None \<Rightarrow> None
      | Some (schedule, month, paid_in, new_bal) \<Rightarrow>
          (case new_bal of
             None \<Rightarrow> Some (Inl UnboundLocalError)
           | Some nb \<Rightarrow>
               Some (Inr \<lparr> index = map (\<lambda>x. start_date + x) [0 ..< month + 1],
                           payment = paid_in [length paid_in - 1 := debt_payment + nb],
                           loan_schedule = schedule [length schedule - 1 := 0] \<rparr>)))"



section \<open>The pandas operations the code relies on\<close>

text \<open>
  \<^verbatim>\<open>pandas.Series([v], index = idx)\<close>: in the pandas the code was written for, a
  one-element list is spread over the whole index.
\<close>

definition series_const :: "real \<Rightarrow> period list \<Rightarrow> series" where
  "series_const v idx = map (\<lambda>d. (d, v)) idx"

text \<open>
  \<^verbatim>\<open>s[i]\<close> with an integer on a date-indexed Series is positional; so are
  \<^verbatim>\<open>s[-1]\<close>, \<^verbatim>\<open>s[-1] = v\<close> and \<^verbatim>\<open>s[0] = v\<close>. Out of range they raise
  \<open>IndexError\<close>.
\<close>

definition getitem_pos :: "series \<Rightarrow> nat \<Rightarrow> error + real" where
  "getitem_pos s i = (if i < length s then Inr (snd (s ! i)) else Inl IndexError)"

definition getitem_last :: "real list \<Rightarrow> error + real" where
  "getitem_last xs = (if xs = [] then Inl IndexError else Inr (last xs))"

definition setitem_last :: "series \<Rightarrow> real \<Rightarrow> error + series" where
  "setitem_last s v =
     (if s = [] then Inl IndexError else Inr (s [length s - 1 := (fst (last s), v)]))"

definition setitem_first :: "series \<Rightarrow> real \<Rightarrow> error + series" where
  "setitem_first s v =
     (case s of [] \<Rightarrow> Inl IndexError | (d, _) # rest \<Rightarrow> Inr ((d, v) # rest))"

text \<open>\<^verbatim>\<open>s[date]\<close>: lookup by label.\<close>

definition getitem_label :: "series \<Rightarrow> period \<Rightarrow> error + real" where
  "getitem_label s d = (case map_of s d of None \<Rightarrow> Inl KeyError | Some v \<Rightarrow> Inr v)"

text \<open>\<^verbatim>\<open>s[idx]\<close> for an index \<open>idx\<close> of labels: the entries at these labels, in their order.\<close>

fun getitem_labels :: "series \<Rightarrow> period list \<Rightarrow> error + series" where
  "getitem_labels s [] = Inr []"
| "getitem_labels s (d # ds) =
     (case map_of s d of
        None \<Rightarrow> Inl KeyError
      | Some v \<Rightarrow> (case getitem_labels s ds of Inl e \<Rightarrow> Inl e | Inr r \<Rightarrow> Inr ((d, v) # r)))"

text \<open>
  \<^verbatim>\<open>pandas.concat([dbt_sched, inv_sched], axis = 1).fillna(0.)\<close>: the outer join of the
  frame and the series on the sorted union of their labels; a cell with no value is
  filled with 0.
\<close>

definition fillna :: "real option \<Rightarrow> real" where
  "fillna c = (case c of None \<Rightarrow> 0 | Some v \<Rightarrow> v)"

definition concat_fillna :: "debt_frame \<Rightarrow> series \<Rightarrow> agg_frame" where
  "concat_fillna dbt_sched inv_sched =
     (let idx = sort (remdups (index dbt_sched @ map fst inv_sched))
      in \<lparr> index = idx,
           payment = map (\<lambda>d. fillna (map_of (zip (index dbt_sched) (payment dbt_sched)) d)) idx,
           loan_schedule =
             map (\<lambda>d. fillna (map_of (zip (index dbt_sched) (loan_schedule dbt_sched)) d)) idx,
           inv_value = map (\<lambda>d. fillna (map_of inv_sched d)) idx \<rparr>)"


section \<open>Investment compounding: \<^verbatim>\<open>inv_schedule\<close>\<close>

text \<open>
  \<^verbatim>\<open>
  ret_d = {inv_path.index[0]: 0.}
  value = 0.
  for i, date in enumerate(inv_path.index[1:]):
      value = (inv_payments[i] + value ) * (1 + inv_path[date])
      ret_d[date] = value
  return pandas.Series(ret_d)
  \<close>
  The dictionary is an association list; a Series made from a dictionary has its keys
  in sorted order.
\<close>

fun inv_schedule_loop ::
  "series \<Rightarrow> series \<Rightarrow> (nat \<times> period) list \<Rightarrow> real \<Rightarrow> (period \<times> real) list
     \<Rightarrow> error + (period \<times> real) list" where
  "inv_schedule_loop inv_payments inv_path [] val ret_d = Inr ret_d"
| "inv_schedule_loop inv_payments inv_path ((i, date) # rest) val ret_d =
     (case getitem_pos inv_payments i of
        Inl e \<Rightarrow> Inl e
      | Inr c \<Rightarrow>
          (case getitem_label inv_path date of
             Inl e \<Rightarrow> Inl e
           | Inr r \<Rightarrow>
               inv_schedule_loop inv_payments inv_path rest ((c + val) * (1 + r))
                 (AList.update date ((c + val) * (1 + r)) ret_d)))"

definition inv_schedule :: "series \<Rightarrow> series \<Rightarrow> error + series" where
  "inv_schedule inv_payments inv_path =
     (case inv_path of
        [] \<Rightarrow> Inl IndexError
      | (d0, _) # later \<Rightarrow>
          (case inv_schedule_loop inv_payments inv_path (enumerate 0 (map fst later)) 0 [(d0, 0)] of
             Inl e \<Rightarrow> Inl e
           | Inr ret_d \<Rightarrow> Inr (sort_key fst ret_d)))"


section \<open>Price path: \<^verbatim>\<open>gen_gbm_price_series\<close>\<close>

text \<open>\<^verbatim>\<open>numpy.cumsum\<close>: the running sums of a list.\<close>

fun cumsum_from :: "real \<Rightarrow> real list \<Rightarrow> real list" where
  "cumsum_from acc [] = []"
| "cumsum_from acc (x # xs) = (acc + x) # cumsum_from (acc + x) xs"

definition cumsum :: "real list \<Rightarrow> real list" where
  "cumsum xs = cumsum_from 0 xs"

text \<open>
  \<^verbatim>\<open>
  dt = num_years/float(N)
  e1 = (drift - 0.5*vol**2)*dt
  e2 = (vol*numpy.sqrt(dt))
  cum_shocks = numpy.cumsum(numpy.random.randn(N,))
  cum_drift = numpy.arange(1, N + 1)
  series = numpy.append(price_0, price_0 * numpy.exp(cum_drift*e1 + cum_shocks*e2)[:-1])
  return pandas.Series(series)
  \<close>
  The \<open>N\<close> draws of \<^verbatim>\<open>numpy.random.randn(N,)\<close> are the argument \<open>shocks\<close>. The
  result is the Series' values, in the order of its positions \<open>0, \<dots>, N - 1\<close>.
\<close>

definition gen_gbm_price_series ::
  "real \<Rightarrow> nat \<Rightarrow> real \<Rightarrow> real \<Rightarrow> real \<Rightarrow> real list \<Rightarrow> error + real list" where
  "gen_gbm_price_series num_years N price_0 vol drift shocks =
     (if N = 0 then Inl ZeroDivisionError
      else
        (let dt = num_years / real N;
             e1 = (drift - 0.5 * vol\<^sup>2) * dt;
             e2 = vol * sqrt dt;
             cum_shocks = cumsum (take N shocks);
             cum_drift = map real [1 ..< N + 1]
         in Inr (price_0 #
                 butlast (map (\<lambda>(d, s). price_0 * exp (d * e1 + s * e2))
                            (zip cum_drift cum_shocks)))))"


section \<open>The two strategies\<close>

text \<open>
  \<^verbatim>\<open>
  inv_a = pandas.Series([debt_payment + excess_inv],
      index = return_series.index[: len(dbt_sched)])
  inv_a[-1] = debt_payment - dbt_pymnts[-1] + excess_inv + debt_payment
  inv_b = pandas.Series([debt_payment + excess_inv + debt_payment],
      index = return_series.index[len(dbt_pymnts):])
  inv_payment = inv_a.append(inv_b)
  \<close>
\<close>

definition conc_inv_payment :: "series \<Rightarrow> debt_frame \<Rightarrow> real \<Rightarrow> real \<Rightarrow> error + series" where
  "conc_inv_payment return_series dbt_sched debt_payment excess_inv =
     (let dbt_pymnts = payment dbt_sched;
          inv_a = series_const (debt_payment + excess_inv)
                    (take (length (index dbt_sched)) (map fst return_series))
      in case getitem_last dbt_pymnts of
           Inl e \<Rightarrow> Inl e
         | Inr last_pymnt \<Rightarrow>
             (case setitem_last inv_a (debt_payment - last_pymnt + excess_inv + debt_payment) of
                Inl e \<Rightarrow> Inl e
              | Inr inv_a' \<Rightarrow>
                  Inr (inv_a' @
                       series_const (debt_payment + excess_inv + debt_payment)
                         (drop (length dbt_pymnts) (map fst return_series)))))"

text \<open>
  \<^verbatim>\<open>
  n_months = payoff_nmonths(debt_amount, debt_payment, int_rate)
  assert len(return_series) > n_months, "not enough investment periods"
  start_date = return_series.index[0]
  dbt_sched = debt_schedule(start_date, debt_amount, int_rate, debt_payment)
  ...
  inv_sched = inv_schedule(inv_payment, return_series)
  agg = pandas.concat( [dbt_sched, inv_sched], axis = 1)
  agg = agg.fillna(0.)
  return agg
  \<close>
\<close>

definition conc_payout ::
  "series \<Rightarrow> real \<Rightarrow> real \<Rightarrow> real \<Rightarrow> real \<Rightarrow> (error + agg_frame) option" where
  "conc_payout return_series debt_amount int_rate debt_payment excess_inv =
     (case payoff_nmonths debt_amount debt_payment int_rate of
        None \<Rightarrow> None
      | Some n_months \<Rightarrow>
          if \<not> length return_series > n_months then Some (Inl AssertionError)
          else
            (case return_series of
               [] \<Rightarrow> Some (Inl IndexError)
             | (start_date, _) # _ \<Rightarrow>
                 (case debt_schedule start_date debt_amount int_rate debt_payment of
                    None \<Rightarrow> None
                  | Some (Inl e) \<Rightarrow> Some (Inl e)
                  | Some (Inr dbt_sched) \<Rightarrow>
                      Some (case conc_inv_payment return_series dbt_sched debt_payment excess_inv of
                              Inl e \<Rightarrow> Inl e
                            | Inr inv_payment \<Rightarrow>
                                (case inv_schedule inv_payment return_series of
                                   Inl e \<Rightarrow> Inl e
                                 | Inr inv_sched \<Rightarrow> Inr (concat_fillna dbt_sched inv_sched))))))"

text \<open>
  \<^verbatim>\<open>
  inv = pandas.Series([2. * debt_payment + excess_inv],
      index = return_series.index[len(dbt_sched) - 1: ])
  inv[0] = debt_payment - dbt_pymnts[-1] + excess_inv
  \<close>
  The Series \<^verbatim>\<open>inv\<close> is \<open>inv_ser\<close> here.
\<close>

definition loans_first_inv :: "series \<Rightarrow> debt_frame \<Rightarrow> real \<Rightarrow> real \<Rightarrow> error + series" where
  "loans_first_inv return_series dbt_sched debt_payment excess_inv =
     (let dbt_pymnts = payment dbt_sched;
          inv_ser = series_const (2 * debt_payment + excess_inv)
                  (drop (length (index dbt_sched) - 1) (map fst return_series))
      in case getitem_last dbt_pymnts of
           Inl e \<Rightarrow> Inl e
         | Inr last_pymnt \<Rightarrow> setitem_first inv_ser (debt_payment - last_pymnt + excess_inv))"

text \<open>
  \<^verbatim>\<open>
  n_months = payoff_nmonths(debt_amount, debt_payment, int_rate)
  assert len(return_series) > n_months, "not enough investment periods"
  start_date = return_series.index[0]
  dbt_sched = debt_schedule(start_date, debt_amount, int_rate, 2. * debt_payment + excess_inv)
  ...
  inv_sched = inv_schedule(inv, return_series[inv.index])
  agg = pandas.concat( [dbt_sched, inv_sched], axis = 1)
  agg = agg.fillna(0.)
  return agg
  \<close>
\<close>

definition loans_first_payout ::
  "series \<Rightarrow> real \<Rightarrow> real \<Rightarrow> real \<Rightarrow> real \<Rightarrow> (error + agg_frame) option" where
  "loans_first_payout return_series debt_amount int_rate debt_payment excess_inv =
     (case payoff_nmonths debt_amount debt_payment int_rate of
        None \<Rightarrow> None
      | Some n_months \<Rightarrow>
          if \<not> length return_series > n_months then Some (Inl AssertionError)
          else
            (case return_series of
               [] \<Rightarrow> Some (Inl IndexError)
             | (start_date, _) # _ \<Rightarrow>
                 (case debt_schedule start_date debt_amount int_rate
                         (2 * debt_payment + excess_inv) of
                    None \<Rightarrow> None
                  | Some (Inl e) \<Rightarrow> Some (Inl e)
                  | Some (Inr dbt_sched) \<Rightarrow>
                      Some (case loans_first_inv return_series dbt_sched debt_payment excess_inv of
                              Inl e \<Rightarrow> Inl e
                            | Inr inv_ser \<Rightarrow>
                                (case getitem_labels return_series (map fst inv_ser) of
                                   Inl e \<Rightarrow> Inl e
                                 | Inr sub_path \<Rightarrow>
                                     (case inv_schedule inv_ser sub_path of
                                        Inl e \<Rightarrow> Inl e
                                      | Inr inv_sched \<Rightarrow>
                                          Inr (concat_fillna dbt_sched inv_sched)))))))"

text \<open>
  The period at which the \<^verbatim>\<open>loan_schedule\<close> column of a merged table reaches 0: the
  label of its first row whose balance is 0.
\<close>

definition payoff_period :: "agg_frame \<Rightarrow> period option" where
  "payoff_period agg =
     map_option fst (find (\<lambda>(d, b). b = 0) (zip (index agg) (loan_schedule agg)))"


section \<open>The recurrence of the compounding loop\<close>

text \<open>
  The values the loop of \<^verbatim>\<open>inv_schedule\<close> produces, as a recursion over the list of
  contributions and the list of returns of the later periods: each step is the loop body
  \<^verbatim>\<open>value = (inv_payments[i] + value) * (1 + inv_path[date])\<close>. It is used to describe
  the loop's result; the loop itself is \<open>inv_schedule_loop\<close>.
\<close>

fun compound_from :: "real \<Rightarrow> real list \<Rightarrow> real list \<Rightarrow> real list" where
  "compound_from val (c # cs) (r # rs) =
     (c + val) * (1 + r) # compound_from ((c + val) * (1 + r)) cs rs"
| "compound_from val _ _ = []"


section \<open>The loops in double arithmetic\<close>

text \<open>
  Whether the two loops return depends on how the float operations round, so the loops are
  given a second time with every operation rounded as Python rounds it: to the nearest
  IEEE 754 binary64 value, ties to even. A double is a real number (the sign of a zero
  plays no part in the code), an infinity or a NaN.
\<close>

datatype double = Num real | PosInf | NegInf | NaN

text \<open>
  Rounding a real to an integer, ties to the even one; the spacing of the doubles around
  \<open>x\<close> (53 significant bits, the exponent not below \<open>-1022\<close>, so that the subnormal
  range has the spacing \<open>2 powr - 1074\<close>); rounding to a multiple of that spacing; and the
  double that a real result becomes, an infinity from \<open>2 ^ 1024\<close> on.
\<close>

definition round_half_even :: "real \<Rightarrow> int" where
  "round_half_even y =
     (let n = \<lfloor>y\<rfloor>; d = y - of_int n
      in if d < 1 / 2 then n else if 1 / 2 < d then n + 1 else if even n then n else n + 1)"

definition b64_exponent :: "real \<Rightarrow> int" where
  "b64_exponent x = (if x = 0 then - 1022 else max \<lfloor>log 2 \<bar>x\<bar>\<rfloor> (- 1022))"

definition ulp :: "real \<Rightarrow> real" where
  "ulp x = 2 powr (of_int (b64_exponent x) - 52)"

definition round_b64 :: "real \<Rightarrow> real" where
  "round_b64 x = of_int (round_half_even (x / ulp x)) * ulp x"

definition to_double :: "real \<Rightarrow> double" where
  "to_double x =
     (let r = round_b64 x
      in if 2 ^ 1024 \<le> r then PosInf else if r \<le> - (2 ^ 1024) then NegInf else Num r)"

text \<open>
  The float operations of the loop body: \<^verbatim>\<open>-\<close>, \<^verbatim>\<open>+\<close>, \<^verbatim>\<open>*\<close>, \<^verbatim>\<open>/ 12.\<close> and the
  test \<^verbatim>\<open>> 0.\<close>. None of them raises; an overflow gives an infinity, \<open>inf - inf\<close> and
  \<open>inf * 0\<close> give a NaN, and a NaN compares false.
\<close>

fun dneg :: "double \<Rightarrow> double" where
  "dneg (Num x) = Num (- x)"
| "dneg PosInf = NegInf"
| "dneg NegInf = PosInf"
| "dneg NaN = NaN"

fun dadd :: "double \<Rightarrow> double \<Rightarrow> double" where
  "dadd (Num x) (Num y) = to_double (x + y)"
| "dadd NaN _ = NaN"
| "dadd _ NaN = NaN"
| "dadd PosInf NegInf = NaN"
| "dadd NegInf PosInf = NaN"
| "dadd PosInf _ = PosInf"
| "dadd _ PosInf = PosInf"
| "dadd NegInf _ = NegInf"
| "dadd _ NegInf = NegInf"

definition dsub :: "double \<Rightarrow> double \<Rightarrow> double" where
  "dsub a b = dadd a (dneg b)"

fun dmul :: "double \<Rightarrow> double \<Rightarrow> double" where
  "dmul (Num x) (Num y) = to_double (x * y)"
| "dmul NaN _ = NaN"
| "dmul _ NaN = NaN"
| "dmul (Num x) b = (if x = 0 then NaN else if 0 < x then b else dneg b)"
| "dmul a (Num y) = (if y = 0 then NaN else if 0 < y then a else dneg a)"
| "dmul a b = (if a = b then PosInf else NegInf)"

fun ddiv12 :: "double \<Rightarrow> double" where
  "ddiv12 (Num x) = to_double (x / 12)"
| "ddiv12 a = a"

fun gt0 :: "double \<Rightarrow> bool" where
  "gt0 (Num x) = (0 < x)"
| "gt0 PosInf = True"
| "gt0 _ = False"

text \<open>
  \<^verbatim>\<open>new_bal = debt * (1. + int_rate / 12.) - debt_payment\<close>, and the two loops with it.
\<close>

definition new_bal_f64 :: "double \<Rightarrow> double \<Rightarrow> double \<Rightarrow> double" where
  "new_bal_f64 debt_payment int_rate debt =
     dsub (dmul debt (dadd (Num 1) (ddiv12 int_rate))) debt_payment"

partial_function (option) payoff_loop_f64 :: "double \<Rightarrow> double \<Rightarrow> double \<Rightarrow> nat \<Rightarrow> nat option" where
  "payoff_loop_f64 debt_payment int_rate debt month =
     (if gt0 debt
      then payoff_loop_f64 debt_payment int_rate (new_bal_f64 debt_payment int_rate debt) (month + 1)
      else Some month)"

definition payoff_nmonths_f64 :: "double \<Rightarrow> double \<Rightarrow> double \<Rightarrow> nat option" where
  "payoff_nmonths_f64 debt_amount debt_payment int_rate =
     payoff_loop_f64 debt_payment int_rate debt_amount 0"

partial_function (option) debt_schedule_loop_f64 ::
  "double \<Rightarrow> double \<Rightarrow> double list \<Rightarrow> double \<Rightarrow> nat \<Rightarrow> double list \<Rightarrow> double option
     \<Rightarrow> (double list \<times> nat \<times> double list \<times> double option) option" where
  "debt_schedule_loop_f64 debt_payment int_rate schedule debt month paid_in new_bal =
     (if gt0 debt
      then debt_schedule_loop_f64 debt_payment int_rate
             (schedule @ [new_bal_f64 debt_payment int_rate debt])
             (new_bal_f64 debt_payment int_rate debt)
             (month + 1)
             (paid_in @ [debt_payment])
             (Some (new_bal_f64 debt_payment int_rate debt))
      else Some (schedule, month, paid_in, new_bal))"

text \<open>The frame of \<^verbatim>\<open>debt_schedule\<close> with columns of doubles, and the function itself.\<close>

record debt_frame_f64 =
  index_f64 :: "period list"
  payment_f64 :: "double list"
  loan_schedule_f64 :: "double list"

definition debt_schedule_f64 ::
  "period \<Rightarrow> double \<Rightarrow> double \<Rightarrow> double \<Rightarrow> (error + debt_frame_f64) option" where
  "debt_schedule_f64 start_date debt_amount int_rate debt_payment =
     (case debt_schedule_loop_f64 debt_payment int_rate [debt_amount] debt_amount 0 [Num 0] None of
        None \<Rightarrow> None
      | Some (schedule, month, paid_in, new_bal) \<Rightarrow>
          (case new_bal of
             None \<Rightarrow> Some (Inl UnboundLocalError)
           | Some nb \<Rightarrow>
               Some (Inr \<lparr> index_f64 = map (\<lambda>x. start_date + x) [0 ..< month + 1],
                           payment_f64 = paid_in [length paid_in - 1 := dadd debt_payment nb],
                           loan_schedule_f64 = schedule [length schedule - 1 := Num 0] \<rparr>)))"

text \<open>
  A balance that is at least 1000 or the positive infinity: the property that the update
  keeps when the payment is 10 and the rate 0.24.
\<close>

definition at_least_1000 :: "double \<Rightarrow> bool" where
  "at_least_1000 debt = (case debt of Num d \<Rightarrow> 1000 \<le> d | PosInf \<Rightarrow> True | _ \<Rightarrow> False)"


section \<open>The two loops\<close>





text \<open>Whenever the horizon loop returns, the schedule loop returns after as many periods.\<close>

lemma payoff_loop_Some_imp:
  assumes "payoff_loop p i debt month = Some y"
  shows "\<forall>sched paid nb. \<exists>bs. y = month + length bs
      \<and> debt_schedule_loop p i sched debt month paid nb =
             Some (sched @ bs, month + length bs, paid @ replicate (length bs) p,
                   if bs = [] then nb else Some (last bs))
      \<and> (\<forall>x\<in>set (butlast (debt # bs)). 0 < x) \<and> last (debt # bs) \<le> 0"
  using assms
proof (induction p i debt month y rule: payoff_loop.raw_induct [rotated 1, consumes 1, case_names 1])
  case (1 f p i debt month y)
  show ?case
  proof (cases "0 < debt")
    case False
    with 1(2) have "y = month" by simp
    with False show ?thesis
      by (intro allI exI [of _ "[]"]) (simp add: debt_schedule_loop.simps)
  next
    case True
    define new where "new = debt * (1 + i / 12) - p"
    from True 1(2) have "f p i new (month + 1) = Some y" by (simp add: new_def)
    note IH = 1(1) [OF this]
    show ?thesis
    proof (intro allI)
      fix sched paid nb
      from IH obtain bs where
        y: "y = month + 1 + length bs"
        and a: "debt_schedule_loop p i (sched @ [new]) new (month + 1) (paid @ [p]) (Some new) =
            Some ((sched @ [new]) @ bs, month + 1 + length bs, (paid @ [p]) @ replicate (length bs) p,
                   if bs = [] then Some new else Some (last bs))"
        and d: "\<forall>x\<in>set (butlast (new # bs)). 0 < x"
        and e: "last (new # bs) \<le> 0"
        by blast
      have A: "debt_schedule_loop p i sched debt month paid nb =
             Some (sched @ (new # bs), month + length (new # bs), paid @ replicate (length (new # bs)) p,
                   if new # bs = [] then nb else Some (last (new # bs)))"
        using a True by (subst debt_schedule_loop.simps) (simp add: new_def replicate_append_same)
      have Y: "y = month + length (new # bs)" using y by simp
      have D': "\<forall>x\<in>set (butlast (debt # new # bs)). 0 < x"
        using d True by simp
      have E: "last (debt # new # bs) \<le> 0" using e by simp
      from A Y D' E show "\<exists>bs. y = month + length bs
      \<and> debt_schedule_loop p i sched debt month paid nb =
             Some (sched @ bs, month + length bs, paid @ replicate (length bs) p,
                   if bs = [] then nb else Some (last bs))
      \<and> (\<forall>x\<in>set (butlast (debt # bs)). 0 < x) \<and> last (debt # bs) \<le> 0" by blast
    qed
  qed
qed

section \<open>Properties of the horizon and of the schedule\<close>

lemma replicate_Suc_update_last: "(replicate (Suc n) p) [n := v] = replicate n p @ [v]"
proof -
  have "replicate (Suc n) p = replicate n p @ [p]"
    by (simp add: replicate_append_same)
  then show ?thesis
    by (metis length_replicate list_update_length)
qed



lemma debt_schedule_of_payoff:
  fixes D p i :: real
  assumes pos: "0 < D" and n: "payoff_nmonths D p i = Some n"
  shows "\<exists>bs. bs \<noteq> [] \<and> length bs = n
        \<and> debt_schedule s D i p =
            Some (Inr \<lparr> index = map (\<lambda>x. s + x) [0 ..< n + 1],
                        payment = 0 # replicate (n - 1) p @ [p + last bs],
                        loan_schedule = D # butlast bs @ [0] \<rparr>)
        \<and> (\<forall>x\<in>set (butlast bs). 0 < x) \<and> last bs \<le> 0"
proof -
  from n have "payoff_loop p i D 0 = Some n" by (simp add: payoff_nmonths_def)
  from payoff_loop_Some_imp [OF this, rule_format, of "[D]" "[0]" None]
  obtain bs where
    y: "n = 0 + length bs"
    and a: "debt_schedule_loop p i [D] D 0 [0] None =
          Some ([D] @ bs, 0 + length bs, [0] @ replicate (length bs) p,
                if bs = [] then None else Some (last bs))"
    and d: "\<forall>x\<in>set (butlast (D # bs)). 0 < x"
    and e: "last (D # bs) \<le> 0"
    by blast
  have ne: "bs \<noteq> []" using e pos by auto
  then obtain xs x where bs: "bs = xs @ [x]" by (meson rev_exhaust)
  have sched: "(D # bs) [length (D # bs) - 1 := 0] = D # butlast bs @ [0]"
    by (simp add: bs)
  have paid: "(0 # replicate (length bs) p) [length (0 # replicate (length bs) p) - 1 := p + last bs]
        = 0 # replicate (length bs - 1) p @ [p + last bs]"
    by (simp add: bs replicate_Suc_update_last del: replicate_Suc)
  have "debt_schedule s D i p =
            Some (Inr \<lparr> index = map (\<lambda>x. s + x) [0 ..< length bs + 1],
                        payment = 0 # replicate (length bs - 1) p @ [p + last bs],
                        loan_schedule = D # butlast bs @ [0] \<rparr>)"
    unfolding debt_schedule_def a using ne sched paid by simp
  moreover have "\<forall>x\<in>set (butlast bs). 0 < x" using d ne by simp
  moreover have "last bs \<le> 0" using e ne by simp
  ultimately show ?thesis using ne y by auto
qed






section \<open>The flat price path\<close>

lemma length_cumsum_from: "length (cumsum_from acc xs) = length xs"
  by (induction xs arbitrary: acc) simp_all

lemma butlast_replicate_Suc: "butlast (replicate (Suc n) x) = replicate n x"
  by (induction n) simp_all

text \<open>
  Claim C9. For every \<open>num_years > 0\<close>, \<open>N \<ge> 1\<close> and \<open>price_0\<close>, the price path with
  \<open>vol = 0\<close> and \<open>drift = 0\<close> has length \<open>N\<close> and all its entries are \<open>price_0\<close>, whatever
  the \<open>N\<close> random draws are; in particular for \<open>num_years = 1\<close>, \<open>N = 12\<close>,
  \<open>price_0 = 100\<close>.
\<close>

theorem gbm_flat_path:
  assumes "0 < num_years" and "1 \<le> N" and "length shocks = N"
  shows "gen_gbm_price_series num_years N price_0 0 0 shocks = Inr (replicate N price_0)"
proof -
  have len: "length (zip (map real [1 ..< N + 1]) (cumsum (take N shocks))) = N"
    using assms(3) by (simp add: cumsum_def length_cumsum_from)
  have "map (\<lambda>(d, s). price_0 * exp (d * ((0 - 0.5 * 0\<^sup>2) * (num_years / real N))
                + s * (0 * sqrt (num_years / real N))))
          (zip (map real [1 ..< N + 1]) (cumsum (take N shocks)))
        = map (\<lambda>_. price_0) (zip (map real [1 ..< N + 1]) (cumsum (take N shocks)))"
    by (rule map_cong) auto
  also have "\<dots> = replicate N price_0"
    using len by (simp only: map_replicate_const)
  finally have flat: "map (\<lambda>(d, s). price_0 * exp (d * ((0 - 0.5 * 0\<^sup>2) * (num_years / real N))
                + s * (0 * sqrt (num_years / real N))))
          (zip (map real [1 ..< N + 1]) (cumsum (take N shocks))) = replicate N price_0" .
  have "price_0 # butlast (replicate N price_0) = replicate N price_0"
    using assms(2) by (cases N) (simp_all add: butlast_replicate_Suc del: replicate_Suc, simp)
  with flat assms(2) show ?thesis
    unfolding gen_gbm_price_series_def Let_def by simp
qed

theorem gbm_flat_path_witness:
  "(0::real) < 1 \<and> (1::nat) \<le> 12 \<and>
   length [0.3, -1.2, 0.5, 2, -0.7, 0.1, 0, 1.1, -2.3, 0.4, 0.9, -0.6 :: real] = 12 \<and>
   gen_gbm_price_series 1 12 100 0 0 [0.3, -1.2, 0.5, 2, -0.7, 0.1, 0, 1.1, -2.3, 0.4, 0.9, -0.6]
     = Inr [100, 100, 100, 100, 100, 100, 100, 100, 100, 100, 100, 100]"
  using gbm_flat_path [of 1 12 "[0.3, -1.2, 0.5, 2, -0.7, 0.1, 0, 1.1, -2.3, 0.4, 0.9, -0.6]" 100]
  by (simp add: numeral_eq_Suc)


section \<open>The length check of the two strategies\<close>

lemma debt_schedule_no_assert:
  "debt_schedule s D i p \<noteq> Some (Inl AssertionError)"
  by (simp add: debt_schedule_def split: option.splits prod.splits)

lemma inv_schedule_loop_no_assert:
  "inv_schedule_loop c r es v d \<noteq> Inl AssertionError"
  by (induction c r es v d rule: inv_schedule_loop.induct)
     (simp_all add: getitem_pos_def getitem_label_def split: sum.splits option.splits)

lemma inv_schedule_no_assert: "inv_schedule c r \<noteq> Inl AssertionError"
  using inv_schedule_loop_no_assert
  by (auto simp add: inv_schedule_def split: list.splits prod.splits sum.splits)

lemma getitem_labels_no_assert: "getitem_labels s ds \<noteq> Inl AssertionError"
  by (induction ds) (auto split: option.splits sum.splits)

lemma conc_inv_payment_no_assert: "conc_inv_payment rs df dp ex \<noteq> Inl AssertionError"
  by (simp add: conc_inv_payment_def Let_def getitem_last_def setitem_last_def)

lemma loans_first_inv_no_assert: "loans_first_inv rs df dp ex \<noteq> Inl AssertionError"
  by (simp add: loans_first_inv_def Let_def getitem_last_def setitem_first_def
           split: list.splits prod.splits)

lemma conc_payout_assert:
  assumes "payoff_nmonths D dp i = Some n"
  shows "(conc_payout rs D i dp ex = Some (Inl AssertionError)) = (length rs \<le> n)"
proof (cases "length rs \<le> n")
  case True
  with assms show ?thesis by (simp add: conc_payout_def)
next
  case False
  have "conc_payout rs D i dp ex \<noteq> Some (Inl AssertionError)"
    using False assms debt_schedule_no_assert conc_inv_payment_no_assert inv_schedule_no_assert
    by (auto simp add: conc_payout_def split: list.splits prod.splits option.splits sum.splits)
  with False show ?thesis by simp
qed

lemma loans_first_payout_assert:
  assumes "payoff_nmonths D dp i = Some n"
  shows "(loans_first_payout rs D i dp ex = Some (Inl AssertionError)) = (length rs \<le> n)"
proof (cases "length rs \<le> n")
  case True
  with assms show ?thesis by (simp add: loans_first_payout_def)
next
  case False
  have "loans_first_payout rs D i dp ex \<noteq> Some (Inl AssertionError)"
    using False assms debt_schedule_no_assert loans_first_inv_no_assert inv_schedule_no_assert
      getitem_labels_no_assert
    by (auto simp add: loans_first_payout_def split: list.splits prod.splits option.splits sum.splits)
  with False show ?thesis by simp
qed

lemma payoff_100_50: "payoff_nmonths 100 50 0 = Some 2"
  by (simp add: payoff_nmonths_def payoff_loop.simps)

lemma payoff_100_100: "payoff_nmonths 100 (2 * 50 + 0) 0 = Some 1"
  by (simp add: payoff_nmonths_def payoff_loop.simps)

text \<open>
  Claim C8, as the code has it. Both variants compute the horizon with the nominal
  \<^verbatim>\<open>debt_payment\<close>, the debt-first variant too. Where that horizon is \<open>n_months\<close>, each
  variant fails with the assertion error "not enough investment periods", and no partial
  result, if and only if the return series has at most \<open>n_months\<close> entries; otherwise it
  goes on past the check.
\<close>

theorem assertion_on_nominal_horizon:
  assumes "payoff_nmonths debt_amount debt_payment int_rate = Some n_months"
  shows "(conc_payout return_series debt_amount int_rate debt_payment excess_inv
            = Some (Inl AssertionError)) = (length return_series \<le> n_months) \<and>
         (loans_first_payout return_series debt_amount int_rate debt_payment excess_inv
            = Some (Inl AssertionError)) = (length return_series \<le> n_months)"
  using conc_payout_assert [OF assms] loans_first_payout_assert [OF assms] by simp

theorem assertion_on_nominal_horizon_witness:
  "payoff_nmonths 100 50 0 = Some 2 \<and>
   (conc_payout [(0, 0), (1, 0)] 100 0 50 0 = Some (Inl AssertionError)) = (length [(0::nat, 0::real), (1, 0)] \<le> 2) \<and>
   (loans_first_payout [(0, 0), (1, 0)] 100 0 50 0 = Some (Inl AssertionError)) = (length [(0::nat, 0::real), (1, 0)] \<le> 2)"
  using assertion_on_nominal_horizon [OF payoff_100_50, of "[(0, 0), (1, 0)]" 0] payoff_100_50
  by simp

text \<open>
  Claim C8 as stated fails for the debt-first variant: with a debt of 100 at rate 0, a
  payment of 50 and no excess, the accelerated payment of 100 retires the debt in 1
  period, the return series has 2 entries, and the call fails the assertion all the same.
\<close>

theorem debt_first_asserts_nominal_horizon:
  "payoff_nmonths 100 (2 * 50 + 0) 0 = Some 1 \<and>
   length [(0::nat, 0::real), (1, 0)] > 1 \<and>
   loans_first_payout [(0, 0), (1, 0)] 100 0 50 0 = Some (Inl AssertionError)"
  using payoff_100_100 payoff_100_50 by (simp add: loans_first_payout_def)


section \<open>The contributions of the concomitant strategy\<close>

lemma setitem_last_snoc: "setitem_last (xs @ [(d, a)]) v = Inr (xs @ [(d, v)])"
  by (simp add: setitem_last_def)

lemma conc_inv_payment_char:
  assumes idx: "length (index df) = Suc n" and pay: "length (payment df) = Suc n"
    and n: "n < length rs"
  shows "conc_inv_payment rs df dp ex =
           Inr (map (\<lambda>d. (d, dp + ex)) (take n (map fst rs)) @
                [(map fst rs ! n, dp - last (payment df) + ex + dp)] @
                map (\<lambda>d. (d, dp + ex + dp)) (drop (Suc n) (map fst rs)))"
proof -
  have ne: "payment df \<noteq> []" using pay by auto
  have tk: "take (Suc n) (map fst rs) = take n (map fst rs) @ [map fst rs ! n]"
    using n by (simp add: take_Suc_conv_app_nth)
  have a: "series_const (dp + ex) (take (Suc n) (map fst rs)) =
             map (\<lambda>d. (d, dp + ex)) (take n (map fst rs)) @ [(map fst rs ! n, dp + ex)]"
    unfolding tk by (simp add: series_const_def)
  show ?thesis
    unfolding conc_inv_payment_def Let_def idx pay a
    by (simp add: getitem_last_def ne setitem_last_snoc series_const_def)
qed

text \<open>
  Claim C6. In the concomitant variant, for a positive debt and a return series longer
  than the payoff horizon \<open>n_months\<close>, the contribution series given to the compounding
  scheduler has the labels of the return series and is \<open>debt_payment + excess_inv\<close> at
  every position before the final debt period \<open>n_months\<close>,
  \<open>debt_payment - last_debt_payment + excess_inv + debt_payment\<close> at the final debt period,
  and \<open>2 * debt_payment + excess_inv\<close> at every later period of the return series.
\<close>

theorem conc_contributions:
  assumes pos: "0 < debt_amount"
    and horizon: "payoff_nmonths debt_amount debt_payment int_rate = Some n_months"
    and len: "length return_series > n_months"
  shows "\<exists>dbt_sched inv_payment.
           debt_schedule (fst (hd return_series)) debt_amount int_rate debt_payment
             = Some (Inr dbt_sched) \<and>
           conc_inv_payment return_series dbt_sched debt_payment excess_inv = Inr inv_payment \<and>
           conc_payout return_series debt_amount int_rate debt_payment excess_inv =
             Some (case inv_schedule inv_payment return_series of
                     Inl e \<Rightarrow> Inl e
                   | Inr inv_sched \<Rightarrow> Inr (concat_fillna dbt_sched inv_sched)) \<and>
           map fst inv_payment = map fst return_series \<and>
           (\<forall>k<length return_series.
              snd (inv_payment ! k) =
                (if k < n_months then debt_payment + excess_inv
                 else if k = n_months
                   then debt_payment - last (payment dbt_sched) + excess_inv + debt_payment
                 else 2 * debt_payment + excess_inv))"
proof -
  define start where "start = fst (hd return_series)"
  from debt_schedule_of_payoff [OF pos horizon, of start] obtain bs where
    ne: "bs \<noteq> []" and lbs: "length bs = n_months"
    and df: "debt_schedule start debt_amount int_rate debt_payment =
            Some (Inr \<lparr> index = map (\<lambda>x. start + x) [0 ..< n_months + 1],
                        payment = 0 # replicate (n_months - 1) debt_payment @ [debt_payment + last bs],
                        loan_schedule = debt_amount # butlast bs @ [0] \<rparr>)"
    by blast
  define dbt_sched where "dbt_sched =
     \<lparr> index = map (\<lambda>x. start + x) [0 ..< n_months + 1],
       payment = 0 # replicate (n_months - 1) debt_payment @ [debt_payment + last bs],
       loan_schedule = debt_amount # butlast bs @ [0] \<rparr>"
  have df': "debt_schedule start debt_amount int_rate debt_payment = Some (Inr dbt_sched)"
    using df by (simp only: dbt_sched_def)
  have n1: "0 < n_months" using ne lbs by auto
  have li: "length (index dbt_sched) = Suc n_months" by (simp add: dbt_sched_def)
  have lp: "length (payment dbt_sched) = Suc n_months" using n1 by (simp add: dbt_sched_def)
  define idx where "idx = map fst return_series"
  define last_pymnt where "last_pymnt = last (payment dbt_sched)"
  define A where "A = map (\<lambda>d. (d, debt_payment + excess_inv)) (take n_months idx)"
  define B where "B = map (\<lambda>d. (d, debt_payment + excess_inv + debt_payment))
                          (drop (Suc n_months) idx)"
  define inv_payment where "inv_payment =
     A @ [(idx ! n_months, debt_payment - last_pymnt + excess_inv + debt_payment)] @ B"
  have ip: "conc_inv_payment return_series dbt_sched debt_payment excess_inv = Inr inv_payment"
    using conc_inv_payment_char [OF li lp len]
    by (simp add: inv_payment_def A_def B_def idx_def last_pymnt_def)
  have lidx: "n_months < length idx" using len by (simp add: idx_def)
  have lA: "length A = n_months" using lidx by (simp add: A_def)
  have keys: "map fst inv_payment = idx"
  proof -
    have "map fst inv_payment = take n_months idx @ idx ! n_months # drop (Suc n_months) idx"
      by (simp add: inv_payment_def A_def B_def o_def)
    also have "\<dots> = idx" using lidx by (rule id_take_nth_drop [symmetric])
    finally show ?thesis .
  qed
  have vals: "snd (inv_payment ! k) =
                (if k < n_months then debt_payment + excess_inv
                 else if k = n_months
                   then debt_payment - last_pymnt + excess_inv + debt_payment
                 else 2 * debt_payment + excess_inv)" if k: "k < length return_series" for k
  proof -
    consider "k < n_months" | "k = n_months" | "n_months < k" by linarith
    then show ?thesis
    proof cases
      case 1
      then have "inv_payment ! k = A ! k" by (simp add: inv_payment_def nth_append lA)
      moreover have "snd (A ! k) = debt_payment + excess_inv"
        using 1 lidx by (simp add: A_def)
      ultimately show ?thesis using 1 by simp
    next
      case 2
      then show ?thesis by (simp add: inv_payment_def nth_append lA)
    next
      case 3
      then have "inv_payment ! k = B ! (k - Suc n_months)"
        by (simp add: inv_payment_def nth_append lA nth_Cons')
      moreover have "snd (B ! (k - Suc n_months)) = debt_payment + excess_inv + debt_payment"
        using 3 k by (simp add: B_def idx_def)
      ultimately show ?thesis using 3 by simp
    qed
  qed
  have rs: "return_series \<noteq> []" using len by auto
  then obtain r0 rest where rs_eq: "return_series = (start, r0) # rest"
    by (cases return_series) (auto simp add: start_def)
  have cp: "conc_payout return_series debt_amount int_rate debt_payment excess_inv =
             Some (case inv_schedule inv_payment return_series of
                     Inl e \<Rightarrow> Inl e
                   | Inr inv_sched \<Rightarrow> Inr (concat_fillna dbt_sched inv_sched))"
    unfolding conc_payout_def horizon
    using len df' ip by (simp add: rs_eq)
  show ?thesis
    apply (rule exI [of _ dbt_sched])
    apply (rule exI [of _ inv_payment])
    using df' ip cp keys vals
    by (simp add: start_def idx_def last_pymnt_def)
qed


theorem conc_contributions_witness:
  "(0::real) < 100 \<and> payoff_nmonths 100 50 0 = Some 2 \<and>
   length [(0::nat, 0::real), (1, 1 / 10), (2, 1 / 5), (3, 0)] > 2 \<and>
   (\<exists>dbt_sched inv_payment.
           debt_schedule (fst (hd [(0::nat, 0::real), (1, 1 / 10), (2, 1 / 5), (3, 0)])) 100 0 50
             = Some (Inr dbt_sched) \<and>
           conc_inv_payment [(0, 0), (1, 1 / 10), (2, 1 / 5), (3, 0)] dbt_sched 50 5 = Inr inv_payment \<and>
           conc_payout [(0, 0), (1, 1 / 10), (2, 1 / 5), (3, 0)] 100 0 50 5 =
             Some (case inv_schedule inv_payment [(0, 0), (1, 1 / 10), (2, 1 / 5), (3, 0)] of
                     Inl e \<Rightarrow> Inl e
                   | Inr inv_sched \<Rightarrow> Inr (concat_fillna dbt_sched inv_sched)) \<and>
           map fst inv_payment = map fst [(0::nat, 0::real), (1, 1 / 10), (2, 1 / 5), (3, 0)] \<and>
           (\<forall>k<length [(0::nat, 0::real), (1, 1 / 10), (2, 1 / 5), (3, 0)].
              snd (inv_payment ! k) =
                (if k < 2 then 50 + 5
                 else if k = 2
                   then 50 - last (payment dbt_sched) + 5 + 50
                 else 2 * 50 + 5)))"
  using conc_contributions [OF _ payoff_100_50, of "[(0, 0), (1, 1 / 10), (2, 1 / 5), (3, 0)]" 5]
    payoff_100_50
  by simp


section \<open>The compounding recurrence\<close>

lemma length_compound_from:
  "length (compound_from v cs rs) = min (length cs) (length rs)"
  by (induction v cs rs rule: compound_from.induct) simp_all

lemma compound_from_step:
  "j < length rs \<Longrightarrow> j < length cs \<Longrightarrow>
     (v # compound_from v cs rs) ! Suc j
       = (cs ! j + (v # compound_from v cs rs) ! j) * (1 + rs ! j)"
proof (induction j arbitrary: v cs rs)
  case 0
  then show ?case by (cases cs; cases rs) simp_all
next
  case (Suc j)
  then obtain c cs' r rs' where cs: "cs = c # cs'" and rs: "rs = r # rs'"
    by (cases cs; cases rs) auto
  from Suc.prems have "j < length rs'" "j < length cs'" by (simp_all add: cs rs)
  from Suc.IH [OF this, of "(c + v) * (1 + r)"] show ?case by (simp add: cs rs)
qed

text \<open>Storing under a key that the dictionary does not have yet adds the entry at the end.\<close>

lemma update_fresh: "d \<notin> fst ` set al \<Longrightarrow> AList.update d v al = al @ [(d, v)]"
  by (induction al) auto

lemma inv_schedule_loop_run:
  assumes path: "distinct (map fst path)"
  shows "set t \<subseteq> set path \<Longrightarrow> distinct (map fst t) \<Longrightarrow>
         fst ` set t \<inter> fst ` set ret_d = {} \<Longrightarrow> k + length t \<le> length c \<Longrightarrow>
         inv_schedule_loop c path (enumerate k (map fst t)) v ret_d =
           Inr (ret_d @ zip (map fst t) (compound_from v (map snd (drop k c)) (map snd t)))"
proof (induction t arbitrary: k v ret_d)
  case Nil
  then show ?case by simp
next
  case (Cons x t)
  obtain d r where x: "x = (d, r)" by (cases x)
  have k: "k < length c" using Cons.prems(4) by simp
  have pos: "getitem_pos c k = Inr (snd (c ! k))" using k by (simp add: getitem_pos_def)
  have "(d, r) \<in> set path" using Cons.prems(1) by (simp add: x)
  then have "map_of path d = Some r" using path by simp
  then have lab: "getitem_label path d = Inr r" by (simp add: getitem_label_def)
  define v' where "v' = (snd (c ! k) + v) * (1 + r)"
  have fresh: "d \<notin> fst ` set ret_d" using Cons.prems(3) by (auto simp add: x)
  have upd: "AList.update d v' ret_d = ret_d @ [(d, v')]" using fresh by (rule update_fresh)
  have p1: "set t \<subseteq> set path" using Cons.prems(1) by simp
  have p2: "distinct (map fst t)" using Cons.prems(2) by simp
  have "d \<notin> fst ` set t" using Cons.prems(2) by (simp add: x)
  then have p3: "fst ` set t \<inter> fst ` set (ret_d @ [(d, v')]) = {}"
    using Cons.prems(3) by (auto simp add: x)
  have p4: "Suc k + length t \<le> length c" using Cons.prems(4) by simp
  have dr: "drop k c = c ! k # drop (Suc k) c" using k by (simp add: Cons_nth_drop_Suc)
  have "inv_schedule_loop c path (enumerate k (map fst (x # t))) v ret_d =
        inv_schedule_loop c path (enumerate (Suc k) (map fst t)) v' (ret_d @ [(d, v')])"
    by (simp add: x pos lab upd [unfolded v'_def] v'_def)
  also have "\<dots> = Inr ((ret_d @ [(d, v')]) @
                 zip (map fst t) (compound_from v' (map snd (drop (Suc k) c)) (map snd t)))"
    by (rule Cons.IH [OF p1 p2 p3 p4])
  also have "\<dots> = Inr (ret_d @ zip (map fst (x # t))
                 (compound_from v (map snd (drop k c)) (map snd (x # t))))"
    by (simp add: x dr v'_def)
  finally show ?case .
qed

lemma inv_schedule_char:
  assumes srt: "sorted_wrt (<) (map fst ((d0, r0) # later))"
    and len: "length later \<le> length c"
  shows "inv_schedule c ((d0, r0) # later) =
           Inr ((d0, 0) # zip (map fst later) (compound_from 0 (map snd c) (map snd later)))"
proof -
  define path where "path = (d0, r0) # later"
  define ws where "ws = compound_from 0 (map snd c) (map snd later)"
  have sd: "sorted (map fst path) \<and> distinct (map fst path)"
    using srt by (simp only: path_def strict_sorted_iff)
  have p1: "set later \<subseteq> set path" by (auto simp add: path_def)
  have p2: "distinct (map fst later)" using sd by (simp add: path_def)
  have p3: "fst ` set later \<inter> fst ` set [(d0, 0::real)] = {}"
    using sd by (auto simp add: path_def)
  have p4: "0 + length later \<le> length c" using len by simp
  have loop: "inv_schedule_loop c path (enumerate 0 (map fst later)) 0 [(d0, 0)] =
        Inr ([(d0, 0)] @ zip (map fst later) ws)"
    using inv_schedule_loop_run [OF conjunct2 [OF sd] p1 p2 p3 p4, of 0]
    by (simp add: ws_def)
  have lws: "length ws = length later"
    using len by (simp add: ws_def length_compound_from)
  have keys: "map fst ((d0, 0) # zip (map fst later) ws) = map fst path"
    using lws by (simp add: path_def)
  have "sorted (map fst ((d0, 0) # zip (map fst later) ws))"
    using sd by (simp only: keys)
  then have "sort_key fst ((d0, 0) # zip (map fst later) ws) = (d0, 0) # zip (map fst later) ws"
    by (rule sort_key_id_if_sorted)
  with loop show ?thesis
    unfolding inv_schedule_def path_def [symmetric]
    by (simp add: path_def ws_def)
qed

text \<open>
  Claim C3, as the code has it. For every non-empty return series whose index is strictly
  increasing and every contribution series of the same length, \<^verbatim>\<open>inv_schedule\<close> returns a
  value series with the length and the index of the returns, whose first value is 0 and
  which has, at every position \<open>t \<ge> 1\<close>,
  \<open>value[t] = (contributions[t - 1] + value[t - 1]) * (1 + returns[t])\<close>, the contribution
  taken by position.
\<close>

theorem inv_schedule_recurrence:
  assumes nonempty: "returns \<noteq> []"
    and len: "length contributions = length returns"
    and srt: "sorted_wrt (<) (map fst returns)"
  shows "\<exists>vs. inv_schedule contributions returns = Inr vs \<and>
              length vs = length returns \<and> map fst vs = map fst returns \<and>
              snd (vs ! 0) = 0 \<and>
              (\<forall>t. 1 \<le> t \<and> t < length returns \<longrightarrow>
                 snd (vs ! t) =
                   (snd (contributions ! (t - 1)) + snd (vs ! (t - 1))) * (1 + snd (returns ! t)))"
proof -
  obtain d0 r0 later where rs: "returns = (d0, r0) # later"
    using nonempty by (cases returns) auto
  define ws where "ws = compound_from 0 (map snd contributions) (map snd later)"
  define vs where "vs = (d0, 0) # zip (map fst later) ws"
  have l: "length later \<le> length contributions" using len by (simp add: rs)
  have run: "inv_schedule contributions returns = Inr vs"
    using inv_schedule_char [OF srt [unfolded rs] l] by (simp add: rs vs_def ws_def)
  have lws: "length ws = length later"
    using l by (simp add: ws_def length_compound_from)
  have lvs: "length vs = length returns" using lws by (simp add: vs_def rs)
  have keys: "map fst vs = map fst returns" using lws by (simp add: vs_def rs)
  have vals: "map snd vs = 0 # ws" using lws by (simp add: vs_def)
  have nth_vs: "snd (vs ! t) = (0 # ws) ! t" if "t < length returns" for t
  proof -
    from that lvs have "snd (vs ! t) = map snd vs ! t" by (simp only: nth_map)
    then show ?thesis by (simp only: vals)
  qed
  have first: "snd (vs ! 0) = 0" by (simp add: vs_def)
  have step: "snd (vs ! t) =
        (snd (contributions ! (t - 1)) + snd (vs ! (t - 1))) * (1 + snd (returns ! t))"
    if t: "1 \<le> t \<and> t < length returns" for t
  proof -
    from t obtain j where j: "t = Suc j" by (cases t) auto
    have jl: "j < length later" using t by (simp add: j rs)
    then have jr: "j < length (map snd later)" by simp
    have jc: "j < length (map snd contributions)" using jl l by simp
    have "j < length returns" using t j by simp
    then have prev: "snd (vs ! j) = (0 # ws) ! j" by (rule nth_vs)
    have "snd (vs ! Suc j) = (0 # ws) ! Suc j" using t j nth_vs by simp
    also have "\<dots> = (map snd contributions ! j + (0 # ws) ! j) * (1 + map snd later ! j)"
      unfolding ws_def by (rule compound_from_step [OF jr jc])
    also have "\<dots> = (snd (contributions ! j) + snd (vs ! j)) * (1 + snd (returns ! Suc j))"
      using jl jc prev by (simp add: rs)
    finally show ?thesis by (simp add: j)
  qed
  from run lvs keys first step show ?thesis by blast
qed

theorem inv_schedule_recurrence_witness:
  "[(1::nat, 1 / 2 :: real), (2, 1), (3, 0)] \<noteq> [] \<and>
   length [(1::nat, 10::real), (2, 20), (3, 30)] = length [(1::nat, 1 / 2 :: real), (2, 1), (3, 0)] \<and>
   sorted_wrt (<) (map fst [(1::nat, 1 / 2 :: real), (2, 1), (3, 0)]) \<and>
   (\<exists>vs. inv_schedule [(1, 10), (2, 20), (3, 30)] [(1, 1 / 2), (2, 1), (3, 0)] = Inr vs \<and>
         length vs = length [(1::nat, 1 / 2 :: real), (2, 1), (3, 0)] \<and>
         map fst vs = map fst [(1::nat, 1 / 2 :: real), (2, 1), (3, 0)] \<and>
         snd (vs ! 0) = 0 \<and>
         (\<forall>t. 1 \<le> t \<and> t < length [(1::nat, 1 / 2 :: real), (2, 1), (3, 0)] \<longrightarrow>
            snd (vs ! t) =
              (snd ([(1::nat, 10::real), (2, 20), (3, 30)] ! (t - 1)) + snd (vs ! (t - 1)))
                * (1 + snd ([(1::nat, 1 / 2 :: real), (2, 1), (3, 0)] ! t))))"
  using inv_schedule_recurrence [of "[(1, 1 / 2), (2, 1), (3, 0)]" "[(1, 10), (2, 20), (3, 30)]"]
  by simp

text \<open>
  Claim C3 as stated fails on the empty series: \<^verbatim>\<open>inv_path.index[0]\<close> raises
  \<open>IndexError\<close>, and no value series is returned.
\<close>

theorem inv_schedule_empty_raises: "inv_schedule [] [] = Inl IndexError"
  by (simp add: inv_schedule_def)


section \<open>The contributions of the debt-first strategy\<close>

text \<open>
  A larger payment on a smaller balance retires the debt no later, as long as the monthly
  factor \<open>1 + int_rate / 12\<close> is not negative.
\<close>

lemma payoff_loop_mono:
  assumes "payoff_loop p i debt month = Some y"
  shows "\<forall>p' debt'. p \<le> p' \<and> debt' \<le> debt \<and> 0 \<le> 1 + i / 12 \<longrightarrow>
           (\<exists>y'. payoff_loop p' i debt' month = Some y' \<and> month \<le> y' \<and> y' \<le> y)"
  using assms
proof (induction p i debt month y rule: payoff_loop.raw_induct [rotated 1, consumes 1, case_names 1])
  case (1 f p i debt month y)
  show ?case
  proof (intro allI impI)
    fix p' debt'
    assume A: "p \<le> p' \<and> debt' \<le> debt \<and> 0 \<le> 1 + i / 12"
    show "\<exists>y'. payoff_loop p' i debt' month = Some y' \<and> month \<le> y' \<and> y' \<le> y"
    proof (cases "0 < debt'")
      case False
      have "month \<le> y"
      proof (cases "0 < debt")
        case False
        with 1(2) show ?thesis by simp
      next
        case True
        with 1(2) have "f p i (debt * (1 + i / 12) - p) (month + 1) = Some y" by simp
        from 1(1) [OF this, rule_format, of p "debt * (1 + i / 12) - p"] A
        show ?thesis by auto
      qed
      moreover have "payoff_loop p' i debt' month = Some month"
        using False by (subst payoff_loop.simps) simp
      ultimately show ?thesis by simp
    next
      case True
      with A have "0 < debt" by simp
      with 1(2) have call: "f p i (debt * (1 + i / 12) - p) (month + 1) = Some y" by simp
      have "debt' * (1 + i / 12) \<le> debt * (1 + i / 12)"
        using A by (simp add: mult_right_mono)
      then have le: "debt' * (1 + i / 12) - p' \<le> debt * (1 + i / 12) - p"
        using A by simp
      from 1(1) [OF call, rule_format, of p' "debt' * (1 + i / 12) - p'"] A le
      obtain y' where y': "payoff_loop p' i (debt' * (1 + i / 12) - p') (month + 1) = Some y'"
        and b: "month + 1 \<le> y'" "y' \<le> y"
        by auto
      have "payoff_loop p' i debt' month = Some y'"
        using True y' by (subst payoff_loop.simps) simp
      with b show ?thesis by simp
    qed
  qed
qed

lemma payoff_nmonths_mono:
  assumes "payoff_nmonths D p i = Some n" and "p \<le> p'" and "0 \<le> i"
  shows "\<exists>n'. payoff_nmonths D p' i = Some n' \<and> n' \<le> n"
proof -
  from assms(1) have "payoff_loop p i D 0 = Some n" by (simp add: payoff_nmonths_def)
  from payoff_loop_mono [OF this, rule_format, of p' D] assms(2,3)
  show ?thesis by (auto simp add: payoff_nmonths_def)
qed

lemma loans_first_inv_char:
  assumes idx: "length (index df) = Suc n" and pay: "payment df \<noteq> []"
    and n: "n < length rs"
  shows "loans_first_inv rs df dp ex =
           Inr ((map fst rs ! n, dp - last (payment df) + ex) #
                map (\<lambda>d. (d, 2 * dp + ex)) (drop (Suc n) (map fst rs)))"
proof -
  have "drop n (map fst rs) = map fst rs ! n # drop (Suc n) (map fst rs)"
    by (rule Cons_nth_drop_Suc [symmetric]) (simp add: n)
  then have a: "series_const (2 * dp + ex) (drop n (map fst rs)) =
      (map fst rs ! n, 2 * dp + ex) # map (\<lambda>d. (d, 2 * dp + ex)) (drop (Suc n) (map fst rs))"
    by (simp add: series_const_def)
  show ?thesis
    unfolding loans_first_inv_def Let_def idx
    using pay a by (simp add: getitem_last_def setitem_first_def)
qed

lemma getitem_labels_sub:
  "distinct (map fst s) \<Longrightarrow> set t \<subseteq> set s \<Longrightarrow> getitem_labels s (map fst t) = Inr t"
proof (induction t)
  case Nil
  then show ?case by simp
next
  case (Cons x t)
  obtain d v where x: "x = (d, v)" by (cases x)
  from Cons.prems have m: "map_of s d = Some v" by (simp add: x)
  from Cons have ih: "getitem_labels s (map fst t) = Inr t" by simp
  show ?case by (simp add: x m ih)
qed

lemma map_of_const: "map_of (map (\<lambda>d. (d, b)) xs) x = (if x \<in> set xs then Some b else None)"
  by (induction xs) auto

text \<open>
  Claim C7. In the debt-first variant, for a positive debt, a rate \<open>\<ge> 0\<close>, a nonnegative
  invested amount \<open>debt_payment + excess_inv\<close> and a return series with unique labels that is
  longer than the horizon \<open>n_months\<close> of the length check: the amortization scheduler runs
  with the accelerated payment \<open>2 * debt_payment + excess_inv\<close> and retires the debt at
  period \<open>n_acc \<le> n_months\<close>; the contribution series starts at that period, so nothing is
  contributed at the earlier periods of the accelerated payoff (it has no entry there); it
  is \<open>debt_payment - last_debt_payment + excess_inv\<close> at the payoff period and
  \<open>2 * debt_payment + excess_inv\<close> at every later period; and the compounding scheduler
  runs on the part of the return series that starts at the payoff period.
\<close>

theorem loans_first_contributions:
  assumes pos: "0 < debt_amount" and rate: "0 \<le> int_rate"
    and cash: "0 \<le> debt_payment + excess_inv"
    and horizon: "payoff_nmonths debt_amount debt_payment int_rate = Some n_months"
    and len: "length return_series > n_months"
    and uniq: "distinct (map fst return_series)"
  shows "\<exists>n_acc dbt_sched inv_ser.
           payoff_nmonths debt_amount (2 * debt_payment + excess_inv) int_rate = Some n_acc \<and>
           n_acc \<le> n_months \<and>
           debt_schedule (fst (hd return_series)) debt_amount int_rate
               (2 * debt_payment + excess_inv) = Some (Inr dbt_sched) \<and>
           length (index dbt_sched) = n_acc + 1 \<and>
           loans_first_inv return_series dbt_sched debt_payment excess_inv = Inr inv_ser \<and>
           map fst inv_ser = drop n_acc (map fst return_series) \<and>
           (\<forall>k<n_acc. map_of inv_ser (fst (return_series ! k)) = None) \<and>
           (\<forall>k. n_acc \<le> k \<and> k < length return_series \<longrightarrow>
              map_of inv_ser (fst (return_series ! k)) =
                Some (if k = n_acc
                      then debt_payment - last (payment dbt_sched) + excess_inv
                      else 2 * debt_payment + excess_inv)) \<and>
           getitem_labels return_series (map fst inv_ser) = Inr (drop n_acc return_series) \<and>
           loans_first_payout return_series debt_amount int_rate debt_payment excess_inv =
             Some (case inv_schedule inv_ser (drop n_acc return_series) of
                     Inl e \<Rightarrow> Inl e
                   | Inr inv_sched \<Rightarrow> Inr (concat_fillna dbt_sched inv_sched))"
proof -
  define start where "start = fst (hd return_series)"
  define acc where "acc = 2 * debt_payment + excess_inv"
  have "debt_payment \<le> acc" using cash by (simp add: acc_def)
  from payoff_nmonths_mono [OF horizon this rate] obtain n_acc where
    hz: "payoff_nmonths debt_amount acc int_rate = Some n_acc" and le: "n_acc \<le> n_months"
    by blast
  from debt_schedule_of_payoff [OF pos hz, of start] obtain bs where
    ne: "bs \<noteq> []" and lbs: "length bs = n_acc"
    and df: "debt_schedule start debt_amount int_rate acc =
            Some (Inr \<lparr> index = map (\<lambda>x. start + x) [0 ..< n_acc + 1],
                        payment = 0 # replicate (n_acc - 1) acc @ [acc + last bs],
                        loan_schedule = debt_amount # butlast bs @ [0] \<rparr>)"
    by blast
  define dbt_sched where "dbt_sched =
     \<lparr> index = map (\<lambda>x. start + x) [0 ..< n_acc + 1],
       payment = 0 # replicate (n_acc - 1) acc @ [acc + last bs],
       loan_schedule = debt_amount # butlast bs @ [0] \<rparr>"
  have df': "debt_schedule start debt_amount int_rate acc = Some (Inr dbt_sched)"
    using df by (simp only: dbt_sched_def)
  have li: "length (index dbt_sched) = Suc n_acc" by (simp add: dbt_sched_def)
  have pne: "payment dbt_sched \<noteq> []" by (simp add: dbt_sched_def)
  have nl: "n_acc < length return_series" using le len by simp
  define idx where "idx = map fst return_series"
  define first_c where "first_c = debt_payment - last (payment dbt_sched) + excess_inv"
  define later where "later = map (\<lambda>d. (d, acc)) (drop (Suc n_acc) idx)"
  define inv_ser where "inv_ser = (idx ! n_acc, first_c) # later"
  have iv: "loans_first_inv return_series dbt_sched debt_payment excess_inv = Inr inv_ser"
    using loans_first_inv_char [OF li pne nl]
    by (simp add: inv_ser_def later_def idx_def first_c_def acc_def)
  have lidx: "n_acc < length idx" using nl by (simp add: idx_def)
  have dr: "drop n_acc idx = idx ! n_acc # drop (Suc n_acc) idx"
    by (rule Cons_nth_drop_Suc [symmetric]) (rule lidx)
  have keys: "map fst inv_ser = drop n_acc idx"
    unfolding dr by (simp add: inv_ser_def later_def o_def)
  have didx: "distinct idx" using uniq by (simp add: idx_def)
  have split: "idx = take n_acc idx @ drop n_acc idx" by simp
  have disj: "set (take n_acc idx) \<inter> set (drop n_acc idx) = {}"
    using didx by (metis append_take_drop_id distinct_append)
  have nth_idx: "idx ! k = fst (return_series ! k)" if "k < length return_series" for k
    using that by (simp add: idx_def)
  have lookup: "map_of inv_ser x =
       (if x = idx ! n_acc then Some first_c
        else if x \<in> set (drop (Suc n_acc) idx) then Some acc else None)" for x
    by (simp add: inv_ser_def later_def map_of_const)
  have before: "map_of inv_ser (fst (return_series ! k)) = None" if k: "k < n_acc" for k
  proof -
    have kl: "k < length return_series" using k nl by simp
    have "idx ! k \<in> set (take n_acc idx)"
      using k lidx by (metis in_set_conv_nth length_take min.absorb2 less_imp_le nth_take)
    then have "idx ! k \<notin> set (drop n_acc idx)" using disj by blast
    then have "idx ! k \<noteq> idx ! n_acc \<and> idx ! k \<notin> set (drop (Suc n_acc) idx)"
      unfolding dr by simp
    then show ?thesis using nth_idx [OF kl] by (simp add: lookup)
  qed
  have from_payoff: "map_of inv_ser (fst (return_series ! k)) =
        Some (if k = n_acc then first_c else acc)"
    if k: "n_acc \<le> k \<and> k < length return_series" for k
  proof (cases "k = n_acc")
    case True
    then show ?thesis using nth_idx [of k] k by (simp add: lookup)
  next
    case False
    with k have gt: "Suc n_acc \<le> k" by simp
    have kl: "k < length idx" using k by (simp add: idx_def)
    have "idx ! k \<noteq> idx ! n_acc"
      using didx False kl lidx by (simp add: nth_eq_iff_index_eq)
    moreover have "idx ! k \<in> set (drop (Suc n_acc) idx)"
    proof -
      have "drop (Suc n_acc) idx ! (k - Suc n_acc) = idx ! k"
        using gt kl by simp
      moreover have "k - Suc n_acc < length (drop (Suc n_acc) idx)"
        using gt kl by simp
      ultimately show ?thesis by (metis nth_mem)
    qed
    ultimately show ?thesis using nth_idx [of k] k False by (simp add: lookup)
  qed
  have sub: "getitem_labels return_series (map fst inv_ser) = Inr (drop n_acc return_series)"
  proof -
    have "map fst inv_ser = map fst (drop n_acc return_series)"
      by (simp only: keys idx_def drop_map)
    moreover have "set (drop n_acc return_series) \<subseteq> set return_series"
      by (rule set_drop_subset)
    ultimately show ?thesis using getitem_labels_sub [OF uniq] by simp
  qed
  have rs: "return_series \<noteq> []" using len by auto
  then obtain r0 rest where rs_eq: "return_series = (start, r0) # rest"
    by (cases return_series) (auto simp add: start_def)
  have lp: "loans_first_payout return_series debt_amount int_rate debt_payment excess_inv =
             Some (case inv_schedule inv_ser (drop n_acc return_series) of
                     Inl e \<Rightarrow> Inl e
                   | Inr inv_sched \<Rightarrow> Inr (concat_fillna dbt_sched inv_sched))"
  proof -
    have "loans_first_payout return_series debt_amount int_rate debt_payment excess_inv =
       Some (case loans_first_inv return_series dbt_sched debt_payment excess_inv of
               Inl e \<Rightarrow> Inl e
             | Inr inv_ser \<Rightarrow>
                 (case getitem_labels return_series (map fst inv_ser) of
                    Inl e \<Rightarrow> Inl e
                  | Inr sub_path \<Rightarrow>
                      (case inv_schedule inv_ser sub_path of
                         Inl e \<Rightarrow> Inl e
                       | Inr inv_sched \<Rightarrow> Inr (concat_fillna dbt_sched inv_sched))))"
      unfolding loans_first_payout_def horizon
      using len df' by (simp add: rs_eq acc_def)
    then show ?thesis by (simp only: iv sub sum.case)
  qed
  show ?thesis
    apply (rule exI [of _ n_acc])
    apply (rule exI [of _ dbt_sched])
    apply (rule exI [of _ inv_ser])
    using hz le df' li iv keys before from_payoff sub lp
    by (simp add: start_def idx_def first_c_def acc_def)
qed

theorem loans_first_contributions_witness:
  "(0::real) < 100 \<and> (0::real) \<le> 0 \<and> (0::real) \<le> 50 + 5 \<and>
   payoff_nmonths 100 50 0 = Some 2 \<and>
   length [(0::nat, 0::real), (1, 1 / 10), (2, 1 / 5), (3, 0)] > 2 \<and>
   distinct (map fst [(0::nat, 0::real), (1, 1 / 10), (2, 1 / 5), (3, 0)]) \<and>
   (\<exists>n_acc dbt_sched inv_ser.
           payoff_nmonths 100 (2 * 50 + 5) 0 = Some n_acc \<and>
           n_acc \<le> 2 \<and>
           debt_schedule (fst (hd [(0::nat, 0::real), (1, 1 / 10), (2, 1 / 5), (3, 0)])) 100 0
               (2 * 50 + 5) = Some (Inr dbt_sched) \<and>
           length (index dbt_sched) = n_acc + 1 \<and>
           loans_first_inv [(0, 0), (1, 1 / 10), (2, 1 / 5), (3, 0)] dbt_sched 50 5 = Inr inv_ser \<and>
           map fst inv_ser = drop n_acc (map fst [(0::nat, 0::real), (1, 1 / 10), (2, 1 / 5), (3, 0)]) \<and>
           (\<forall>k<n_acc. map_of inv_ser (fst ([(0::nat, 0::real), (1, 1 / 10), (2, 1 / 5), (3, 0)] ! k)) = None) \<and>
           (\<forall>k. n_acc \<le> k \<and> k < length [(0::nat, 0::real), (1, 1 / 10), (2, 1 / 5), (3, 0)] \<longrightarrow>
              map_of inv_ser (fst ([(0::nat, 0::real), (1, 1 / 10), (2, 1 / 5), (3, 0)] ! k)) =
                Some (if k = n_acc
                      then 50 - last (payment dbt_sched) + 5
                      else 2 * 50 + 5)) \<and>
           getitem_labels [(0, 0), (1, 1 / 10), (2, 1 / 5), (3, 0)] (map fst inv_ser)
             = Inr (drop n_acc [(0, 0), (1, 1 / 10), (2, 1 / 5), (3, 0)]) \<and>
           loans_first_payout [(0, 0), (1, 1 / 10), (2, 1 / 5), (3, 0)] 100 0 50 5 =
             Some (case inv_schedule inv_ser (drop n_acc [(0, 0), (1, 1 / 10), (2, 1 / 5), (3, 0)]) of
                     Inl e \<Rightarrow> Inl e
                   | Inr inv_sched \<Rightarrow> Inr (concat_fillna dbt_sched inv_sched)))"
  using loans_first_contributions [OF _ _ _ payoff_100_50,
          of 5 "[(0, 0), (1, 1 / 10), (2, 1 / 5), (3, 0)]"]
    payoff_100_50
  by simp


section \<open>The payoff period in the merged tables\<close>

text \<open>In a sorted list, the first element with a property is the least one that has it.\<close>

lemma find_sorted_first:
  fixes x :: "'a::linorder"
  shows "sorted xs \<Longrightarrow> x \<in> set xs \<Longrightarrow> P x \<Longrightarrow> \<forall>y\<in>set xs. y < x \<longrightarrow> \<not> P y \<Longrightarrow>
         find P xs = Some x"
proof (induction xs)
  case Nil
  then show ?case by simp
next
  case (Cons a xs)
  show ?case
  proof (cases "a = x")
    case True
    with Cons.prems show ?thesis by simp
  next
    case False
    with Cons.prems have "x \<in> set xs" "a < x" by auto
    with Cons show ?thesis by auto
  qed
qed

lemma find_map_pair:
  "find (\<lambda>(d, b). Q b) (map (\<lambda>d. (d, f d)) xs) = map_option (\<lambda>d. (d, f d)) (find (\<lambda>d. Q (f d)) xs)"
  by (induction xs) simp_all

text \<open>The value series of \<^verbatim>\<open>inv_schedule\<close> has no label outside the return series.\<close>

lemma inv_schedule_loop_keys:
  "inv_schedule_loop c path es v ret_d = Inr ret_d' \<Longrightarrow>
     fst ` set ret_d' \<subseteq> fst ` set ret_d \<union> snd ` set es"
proof (induction c path es v ret_d rule: inv_schedule_loop.induct)
  case (1 c path v ret_d)
  then show ?case by auto
next
  case (2 c path i date rest v ret_d)
  from "2.prems" obtain cv r where
    cv: "getitem_pos c i = Inr cv" and r: "getitem_label path date = Inr r"
    and run: "inv_schedule_loop c path rest ((cv + v) * (1 + r))
                (AList.update date ((cv + v) * (1 + r)) ret_d) = Inr ret_d'"
    by (auto split: sum.splits)
  from "2.IH" [OF cv r run]
  have "fst ` set ret_d' \<subseteq> fst ` set (AList.update date ((cv + v) * (1 + r)) ret_d) \<union> snd ` set rest" .
  then show ?case by (auto simp add: dom_update)
qed

lemma inv_schedule_keys:
  assumes "inv_schedule c r = Inr s"
  shows "fst ` set s \<subseteq> fst ` set r"
proof -
  from assms obtain d0 r0 later ret_d where r: "r = (d0, r0) # later"
    and run: "inv_schedule_loop c r (enumerate 0 (map fst later)) 0 [(d0, 0)] = Inr ret_d"
    and s: "s = sort_key fst ret_d"
    by (auto simp add: inv_schedule_def split: list.splits sum.splits)
  have "snd ` set (enumerate 0 (map fst later)) = set (map snd (enumerate 0 (map fst later)))"
    by (simp only: set_map)
  then have "snd ` set (enumerate 0 (map fst later)) = fst ` set later"
    by (simp only: map_snd_enumerate set_map)
  with inv_schedule_loop_keys [OF run] show ?thesis
    by (auto simp add: s r)
qed

text \<open>
  In the merged table of a schedule of \<open>m\<close> months that starts at \<open>d0\<close> and a value series
  with no label before \<open>d0\<close>, the balance is positive at every row before \<open>d0 + m\<close> and 0
  at \<open>d0 + m\<close>.
\<close>

lemma payoff_period_concat:
  fixes D :: real
  assumes lbs: "length bs = m" and ne: "bs \<noteq> []" and pos: "0 < D"
    and bal: "\<forall>x\<in>set (butlast bs). 0 < x"
    and later: "\<forall>d\<in>fst ` set s. d0 \<le> d"
  shows "payoff_period (concat_fillna
            \<lparr> index = map (\<lambda>x. d0 + x) [0 ..< m + 1], payment = P,
              loan_schedule = D # butlast bs @ [0] \<rparr> s) = Some (d0 + m)"
proof -
  define ix where "ix = map (\<lambda>x. d0 + x) [0 ..< m + 1]"
  define ls where "ls = D # butlast bs @ [0]"
  define idx where "idx = sort (remdups (ix @ map fst s))"
  define f where "f d = fillna (map_of (zip ix ls) d)" for d
  have m1: "0 < m" using ne lbs by auto
  have lls: "length ls = m + 1" using m1 lbs by (simp add: ls_def)
  have lix: "length ix = m + 1" by (simp add: ix_def)
  have dix: "distinct ix" by (simp add: ix_def distinct_map inj_on_def)
  have nth_ix: "ix ! k = d0 + k" if "k \<le> m" for k
    using that by (simp add: ix_def nth_map del: upt_Suc)
  have look: "map_of (zip ix ls) (d0 + k) = Some (ls ! k)" if "k \<le> m" for k
  proof -
    have "k < length ls" using that lls by simp
    from map_of_zip_nth [OF _ dix this] lix lls nth_ix [OF that] show ?thesis by simp
  qed
  have ls_last: "ls ! m = 0"
  proof -
    have "length (D # butlast bs) = m" using m1 lbs by simp
    then show ?thesis unfolding ls_def by (metis append_Cons nth_append_length)
  qed
  have ls_pos: "0 < ls ! k" if "k < m" for k
  proof -
    have l: "length (D # butlast bs) = m" using m1 lbs by simp
    then have "ls ! k = (D # butlast bs) ! k"
      using that unfolding ls_def by (metis append_Cons nth_append)
    moreover have "(D # butlast bs) ! k \<in> set (D # butlast bs)"
      using that l by (metis nth_mem)
    ultimately show ?thesis using pos bal by auto
  qed
  have f_last: "f (d0 + m) = 0" by (simp add: f_def look ls_last fillna_def)
  have f_pos: "f (d0 + k) \<noteq> 0" if "k < m" for k
    using ls_pos [OF that] that by (simp add: f_def look fillna_def)
  have set_idx: "set idx = set ix \<union> fst ` set s" by (simp add: idx_def)
  have set_ix: "set ix = {d0 ..< d0 + m + 1}"
    by (auto simp add: ix_def image_iff intro: le_Suc_ex)
  have srt: "sorted idx" by (simp add: idx_def)
  have mem: "d0 + m \<in> set idx" by (simp add: set_idx set_ix)
  have before: "\<forall>y\<in>set idx. y < d0 + m \<longrightarrow> \<not> f y = 0"
  proof (intro ballI impI)
    fix y assume y: "y \<in> set idx" and lt: "y < d0 + m"
    have "d0 \<le> y" using y later by (auto simp add: set_idx set_ix)
    then obtain k where k: "y = d0 + k" by (auto dest: le_Suc_ex)
    with lt have "k < m" by simp
    then show "\<not> f y = 0" unfolding k by (rule f_pos)
  qed
  have found: "find (\<lambda>d. f d = 0) idx = Some (d0 + m)"
    using srt mem f_last before by (rule find_sorted_first)
  have agg: "concat_fillna \<lparr> index = ix, payment = P, loan_schedule = ls \<rparr> s =
       \<lparr> index = idx,
         payment = map (\<lambda>d. fillna (map_of (zip ix P) d)) idx,
         loan_schedule = map f idx,
         inv_value = map (\<lambda>d. fillna (map_of s d)) idx \<rparr>"
    by (simp add: concat_fillna_def Let_def idx_def f_def)
  have "zip idx (map f idx) = map (\<lambda>d. (d, f d)) idx"
    by (induction idx) simp_all
  then have "payoff_period (concat_fillna \<lparr> index = ix, payment = P, loan_schedule = ls \<rparr> s)
       = map_option fst (find (\<lambda>(d, b). b = 0) (map (\<lambda>d. (d, f d)) idx))"
    by (simp add: payoff_period_def agg)
  also have "\<dots> = Some (d0 + m)"
    by (simp only: find_map_pair found option.map fst_conv)
  finally show ?thesis by (simp only: ix_def ls_def)
qed

lemma sorted_labels_ge_first:
  assumes "sorted (map fst rs)" and "d \<in> fst ` set (drop k rs)"
  shows "fst (hd rs) \<le> d"
proof -
  from assms(2) have "d \<in> set (map fst rs)"
    using set_drop_subset [of k rs] by auto
  with assms(1) show ?thesis by (cases rs) auto
qed

lemma conc_payout_example:
  "conc_payout [(0, 0), (1, 1 / 10), (2, 1 / 5), (3, 0)] 100 0 50 5 =
     Some (Inr \<lparr> index = [0, 1, 2, 3], payment = [0, 50, 50, 0],
                 loan_schedule = [100, 50, 0, 0],
                 inv_value = [0, 121 / 2, 693 / 5, 968 / 5] \<rparr>)"
  by code_simp

lemma loans_first_payout_example:
  "loans_first_payout [(0, 0), (1, 1 / 10), (2, 1 / 5), (3, 0)] 100 0 50 5 =
     Some (Inr \<lparr> index = [0, 1, 2, 3], payment = [0, 100, 0, 0],
                 loan_schedule = [100, 0, 0, 0], inv_value = [0, 0, - 54, 51] \<rparr>)"
  by code_simp

text \<open>
  Claim C5. For a return series with a sorted index and loan terms with a positive debt, a
  rate \<open>\<ge> 0\<close> and \<open>debt_payment + excess_inv \<ge> 0\<close> (in particular \<open>debt_payment > 0\<close> and
  \<open>excess_inv \<ge> 0\<close>) on which both variants succeed, the period at which the
  \<^verbatim>\<open>loan_schedule\<close> column of the debt-first table reaches 0 is the same as or earlier
  than the period at which that of the concomitant table reaches 0.
\<close>

theorem debt_first_pays_off_no_later:
  assumes pos: "0 < debt_amount" and rate: "0 \<le> int_rate"
    and cash: "0 \<le> debt_payment + excess_inv"
    and srt: "sorted (map fst return_series)"
    and conc: "conc_payout return_series debt_amount int_rate debt_payment excess_inv
                 = Some (Inr agg_conc)"
    and first: "loans_first_payout return_series debt_amount int_rate debt_payment excess_inv
                 = Some (Inr agg_first)"
  shows "\<exists>t_first t_conc. payoff_period agg_first = Some t_first \<and>
            payoff_period agg_conc = Some t_conc \<and> t_first \<le> t_conc"
proof -
  define start where "start = fst (hd return_series)"
  define acc where "acc = 2 * debt_payment + excess_inv"
  from conc obtain n where hz: "payoff_nmonths debt_amount debt_payment int_rate = Some n"
    by (auto simp add: conc_payout_def split: option.splits)
  from conc hz have len: "n < length return_series"
    by (auto simp add: conc_payout_def split: if_splits)
  then obtain r0 rest where rs_eq: "return_series = (start, r0) # rest"
    by (cases return_series) (auto simp add: start_def)
  have "debt_payment \<le> acc" using cash by (simp add: acc_def)
  from payoff_nmonths_mono [OF hz this rate] obtain n_acc where
    hz_acc: "payoff_nmonths debt_amount acc int_rate = Some n_acc" and le: "n_acc \<le> n"
    by blast
  from debt_schedule_of_payoff [OF pos hz, of start] obtain bs where
    ne: "bs \<noteq> []" and lbs: "length bs = n"
    and df: "debt_schedule start debt_amount int_rate debt_payment =
            Some (Inr \<lparr> index = map (\<lambda>x. start + x) [0 ..< n + 1],
                        payment = 0 # replicate (n - 1) debt_payment @ [debt_payment + last bs],
                        loan_schedule = debt_amount # butlast bs @ [0] \<rparr>)"
    and bal: "\<forall>x\<in>set (butlast bs). 0 < x"
    by blast
  from debt_schedule_of_payoff [OF pos hz_acc, of start] obtain cs where
    ne': "cs \<noteq> []" and lcs: "length cs = n_acc"
    and df': "debt_schedule start debt_amount int_rate acc =
            Some (Inr \<lparr> index = map (\<lambda>x. start + x) [0 ..< n_acc + 1],
                        payment = 0 # replicate (n_acc - 1) acc @ [acc + last cs],
                        loan_schedule = debt_amount # butlast cs @ [0] \<rparr>)"
    and bal': "\<forall>x\<in>set (butlast cs). 0 < x"
    by blast
  define df_conc where "df_conc =
     \<lparr> index = map (\<lambda>x. start + x) [0 ..< n + 1],
       payment = 0 # replicate (n - 1) debt_payment @ [debt_payment + last bs],
       loan_schedule = debt_amount # butlast bs @ [0] \<rparr>"
  define df_first where "df_first =
     \<lparr> index = map (\<lambda>x. start + x) [0 ..< n_acc + 1],
       payment = 0 # replicate (n_acc - 1) acc @ [acc + last cs],
       loan_schedule = debt_amount # butlast cs @ [0] \<rparr>"
  have dfc: "debt_schedule start debt_amount int_rate debt_payment = Some (Inr df_conc)"
    using df by (simp only: df_conc_def)
  have dff: "debt_schedule start debt_amount int_rate acc = Some (Inr df_first)"
    using df' by (simp only: df_first_def)
  from conc obtain inv_payment s_conc where
    sc: "inv_schedule inv_payment return_series = Inr s_conc"
    and ac: "agg_conc = concat_fillna df_conc s_conc"
    unfolding conc_payout_def hz
    using len dfc by (auto simp add: rs_eq split: sum.splits)
  from first obtain inv_ser sub_path s_first where
    iv: "loans_first_inv return_series df_first debt_payment excess_inv = Inr inv_ser"
    and sub: "getitem_labels return_series (map fst inv_ser) = Inr sub_path"
    and sf: "inv_schedule inv_ser sub_path = Inr s_first"
    and af: "agg_first = concat_fillna df_first s_first"
    unfolding loans_first_payout_def hz
    using len dff by (auto simp add: rs_eq acc_def split: sum.splits)
  have ge: "start \<le> d" if "d \<in> fst ` set return_series" for d
    using sorted_labels_ge_first [OF srt, of d 0] that by (simp add: start_def)
  have keys_c: "\<forall>d\<in>fst ` set s_conc. start \<le> d"
    using inv_schedule_keys [OF sc] ge by blast
  have sub_keys: "fst ` set sub_path \<subseteq> fst ` set return_series"
  proof -
    have "getitem_labels s ds = Inr t \<Longrightarrow> set t \<subseteq> set s" for s ds t
    proof (induction ds arbitrary: t)
      case Nil
      then show ?case by simp
    next
      case (Cons d ds)
      then show ?case
        by (auto split: option.splits sum.splits dest: map_of_SomeD)
    qed
    from this [OF sub] show ?thesis by blast
  qed
  have keys_f: "\<forall>d\<in>fst ` set s_first. start \<le> d"
    using inv_schedule_keys [OF sf] sub_keys ge by blast
  have pc: "payoff_period agg_conc = Some (start + n)"
    unfolding ac df_conc_def by (rule payoff_period_concat [OF lbs ne pos bal keys_c])
  have pf: "payoff_period agg_first = Some (start + n_acc)"
    unfolding af df_first_def by (rule payoff_period_concat [OF lcs ne' pos bal' keys_f])
  from pc pf le show ?thesis by simp
qed

theorem debt_first_pays_off_no_later_witness:
  "(0::real) < 100 \<and> (0::real) \<le> 0 \<and> (0::real) \<le> 50 + 5 \<and>
   sorted (map fst [(0::nat, 0::real), (1, 1 / 10), (2, 1 / 5), (3, 0)]) \<and>
   conc_payout [(0, 0), (1, 1 / 10), (2, 1 / 5), (3, 0)] 100 0 50 5 =
     Some (Inr \<lparr> index = [0, 1, 2, 3], payment = [0, 50, 50, 0],
                 loan_schedule = [100, 50, 0, 0],
                 inv_value = [0, 121 / 2, 693 / 5, 968 / 5] \<rparr>) \<and>
   loans_first_payout [(0, 0), (1, 1 / 10), (2, 1 / 5), (3, 0)] 100 0 50 5 =
     Some (Inr \<lparr> index = [0, 1, 2, 3], payment = [0, 100, 0, 0],
                 loan_schedule = [100, 0, 0, 0], inv_value = [0, 0, - 54, 51] \<rparr>) \<and>
   (\<exists>t_first t_conc.
      payoff_period \<lparr> index = [0, 1, 2, 3], payment = [0, 100, 0, 0],
                 loan_schedule = [100, 0, 0, 0], inv_value = [0, 0, - 54, 51] \<rparr> = Some t_first \<and>
      payoff_period \<lparr> index = [0, 1, 2, 3], payment = [0, 50, 50, 0],
                 loan_schedule = [100, 50, 0, 0],
                 inv_value = [0, 121 / 2, 693 / 5, 968 / 5] \<rparr> = Some t_conc \<and>
      t_first \<le> t_conc)"
  using debt_first_pays_off_no_later [OF _ _ _ _ conc_payout_example loans_first_payout_example]
    conc_payout_example loans_first_payout_example
  by simp


section \<open>Rounding to a double\<close>

lemma round_half_even_err: "\<bar>of_int (round_half_even y) - y\<bar> \<le> 1 / 2"
  unfolding round_half_even_def Let_def by (auto simp: abs_if) linarith+

lemma ulp_pos: "0 < ulp x"
  by (simp add: ulp_def)

lemma ulp_le:
  "ulp x \<le> \<bar>x\<bar> / 2 ^ 52 + 1 / 2 ^ 1074"
proof (cases "x = 0 \<or> \<lfloor>log 2 \<bar>x\<bar>\<rfloor> \<le> - 1022")
  case True
  then have "b64_exponent x = - 1022" by (auto simp add: b64_exponent_def)
  then have "ulp x = 2 powr (- 1074)" by (simp add: ulp_def)
  also have "\<dots> = 1 / 2 ^ 1074" by (simp add: powr_neg_numeral)
  finally show ?thesis by simp
next
  case False
  then have x: "0 < \<bar>x\<bar>" and e: "b64_exponent x = \<lfloor>log 2 \<bar>x\<bar>\<rfloor>"
    by (auto simp add: b64_exponent_def)
  have "2 powr (of_int \<lfloor>log 2 \<bar>x\<bar>\<rfloor>) \<le> 2 powr (log 2 \<bar>x\<bar>)"
    by (rule powr_mono) simp_all
  also have "\<dots> = \<bar>x\<bar>" using x by simp
  finally have le: "2 powr (of_int \<lfloor>log 2 \<bar>x\<bar>\<rfloor>) \<le> \<bar>x\<bar>" .
  have "ulp x = 2 powr (of_int \<lfloor>log 2 \<bar>x\<bar>\<rfloor> + (- 52))"
    unfolding ulp_def e by simp
  also have "\<dots> = 2 powr (of_int \<lfloor>log 2 \<bar>x\<bar>\<rfloor>) * 2 powr (- 52)"
    by (simp only: powr_add)
  also have "\<dots> = 2 powr (of_int \<lfloor>log 2 \<bar>x\<bar>\<rfloor>) / 2 ^ 52"
    by (simp only: powr_neg_numeral) simp
  also have "\<dots> \<le> \<bar>x\<bar> / 2 ^ 52" using le by (simp add: divide_right_mono)
  finally show ?thesis by (simp add: add_increasing2)
qed

text \<open>The rounding error: at most \<open>2 powr - 53\<close> of the value, or half the subnormal spacing.\<close>

lemma round_b64_err: "\<bar>round_b64 x - x\<bar> \<le> \<bar>x\<bar> / 2 ^ 53 + 1 / 2 ^ 1075"
proof -
  have "round_b64 x - x = (of_int (round_half_even (x / ulp x)) - x / ulp x) * ulp x"
    using ulp_pos [of x] by (simp add: round_b64_def algebra_simps)
  then have "\<bar>round_b64 x - x\<bar> = \<bar>of_int (round_half_even (x / ulp x)) - x / ulp x\<bar> * ulp x"
    using ulp_pos [of x] by (simp add: abs_mult)
  also have "\<dots> \<le> 1 / 2 * ulp x"
    using round_half_even_err [of "x / ulp x"] ulp_pos [of x] by (simp add: mult_right_mono)
  also have "\<dots> \<le> 1 / 2 * (\<bar>x\<bar> / 2 ^ 52 + 1 / 2 ^ 1074)"
    using ulp_le [of x] by simp
  also have "\<dots> = \<bar>x\<bar> / 2 ^ 53 + 1 / 2 ^ 1075" by simp
  finally show ?thesis .
qed

lemma round_half_even_int: "round_half_even (of_int m) = m"
  by (simp add: round_half_even_def)

lemma round_b64_exact:
  assumes "x / ulp x = of_int m"
  shows "round_b64 x = x"
proof -
  have "of_int m * ulp x = x / ulp x * ulp x" by (simp only: assms)
  also have "\<dots> = x" using ulp_pos [of x] by simp
  finally show ?thesis by (simp add: round_b64_def assms round_half_even_int)
qed

lemma round_b64_upper: "round_b64 x \<le> x + \<bar>x\<bar> / 2 ^ 53 + 1 / 2 ^ 1075"
  using round_b64_err [of x] by linarith

lemma round_b64_lower: "x - \<bar>x\<bar> / 2 ^ 53 - 1 / 2 ^ 1075 \<le> round_b64 x"
  using round_b64_err [of x] by linarith

lemma to_double_Num:
  assumes "\<bar>x\<bar> \<le> 2 ^ 1003"
  shows "to_double x = Num (round_b64 x)"
proof -
  have a: "\<bar>x\<bar> / 2 ^ 53 \<le> \<bar>x\<bar>" by (simp add: divide_le_eq)
  have b: "(1::real) / 2 ^ 1075 \<le> 1" by simp
  have "\<bar>round_b64 x\<bar> \<le> \<bar>x\<bar> + \<bar>x\<bar> + 1"
    using round_b64_err [of x] a b by linarith
  also have "\<dots> \<le> 2 ^ 1003 + 2 ^ 1003 + 1" using assms by linarith
  also have "\<dots> < (2::real) ^ 1024" by simp
  finally have "\<bar>round_b64 x\<bar> < 2 ^ 1024" .
  then have "\<not> 2 ^ 1024 \<le> round_b64 x" "\<not> round_b64 x \<le> - (2 ^ 1024)"
    by linarith+
  then show ?thesis by (simp only: to_double_def Let_def if_False)
qed

lemma to_double_0: "to_double 0 = Num 0"
proof -
  have "round_b64 0 = 0" by (simp add: round_b64_def round_half_even_def)
  then show ?thesis by (simp add: to_double_Num)
qed

lemma ulp_eqI:
  assumes "2 powr (of_int k) \<le> \<bar>x\<bar>" and "\<bar>x\<bar> < 2 powr (of_int k + 1)" and "- 1022 \<le> k"
  shows "ulp x = 2 powr (of_int k - 52)"
proof -
  have "0 < (2::real) powr (of_int k)" by simp
  then have pos: "0 < \<bar>x\<bar>" using assms(1) by linarith
  then have "\<lfloor>log 2 \<bar>x\<bar>\<rfloor> = k"
    using assms(1,2) by (simp add: floor_log_eq_powr_iff)
  then show ?thesis using pos assms(3) by (simp add: ulp_def b64_exponent_def)
qed

lemma to_double_1: "to_double 1 = Num 1"
proof -
  have u: "ulp 1 = 2 powr (of_int 0 - 52)" by (rule ulp_eqI) simp_all
  have "1 / ulp 1 = of_int (2 ^ 52)" unfolding u by (simp add: powr_neg_numeral)
  then have "round_b64 1 = 1" by (rule round_b64_exact)
  then show ?thesis by (simp add: to_double_Num)
qed

lemma ulp_1e16: "ulp 10000000000000000 = 2"
proof -
  have "ulp 10000000000000000 = 2 powr (of_int 53 - 52)" by (rule ulp_eqI) simp_all
  then show ?thesis by simp
qed

lemma ulp_1e16_pred: "ulp 9999999999999999 = 2"
proof -
  have "ulp 9999999999999999 = 2 powr (of_int 53 - 52)" by (rule ulp_eqI) simp_all
  then show ?thesis by simp
qed

lemma to_double_1e16: "to_double 10000000000000000 = Num 10000000000000000"
proof -
  have "10000000000000000 / ulp 10000000000000000 = of_int 5000000000000000"
    by (simp add: ulp_1e16)
  then have "round_b64 10000000000000000 = 10000000000000000" by (rule round_b64_exact)
  then show ?thesis by (simp add: to_double_Num)
qed

lemma to_double_1e16_pred: "to_double 9999999999999999 = Num 10000000000000000"
proof -
  have "round_half_even (9999999999999999 / 2) = 5000000000000000"
    by (simp add: round_half_even_def Let_def)
  then have "round_b64 9999999999999999 = 10000000000000000"
    by (simp add: round_b64_def ulp_1e16_pred)
  then show ?thesis by (simp add: to_double_Num)
qed

lemma new_bal_f64_absorbed:
  "new_bal_f64 (Num 1) (Num 0) (Num 10000000000000000) = Num 10000000000000000"
  by (simp add: new_bal_f64_def dsub_def to_double_0 to_double_1 to_double_1e16 to_double_1e16_pred)

lemma to_double_pos:
  assumes "0 < round_b64 x"
  shows "to_double x = PosInf \<or> to_double x = Num (round_b64 x)"
proof -
  have "(0::real) < 2 ^ 1024" by simp
  then have "\<not> round_b64 x \<le> - (2 ^ 1024)" using assms by linarith
  then show ?thesis by (simp add: to_double_def Let_def)
qed

lemma monthly_factor_f64_lower:
  assumes "0 \<le> i" and "i \<le> 12"
  shows "\<exists>f. dadd (Num 1) (ddiv12 (Num i)) = Num f \<and> 1 + i / 12 - 7 / 2 ^ 53 \<le> f \<and> f \<le> 3"
proof -
  define r where "r = i / 12"
  have r: "0 \<le> r" "r \<le> 1" using assms by (simp_all add: r_def)
  define r1 where "r1 = round_b64 r"
  have "\<bar>r\<bar> \<le> 2 ^ 1003" using r by simp
  then have d1: "ddiv12 (Num i) = Num r1" by (simp add: r_def r1_def to_double_Num)
  have eta: "(1::real) / 2 ^ 1075 \<le> 1 / 2 ^ 53" by simp
  have ru: "\<bar>r\<bar> / 2 ^ 53 \<le> 1 / 2 ^ 53" using r by (simp add: divide_right_mono)
  have r1u: "r1 \<le> r + 2 / 2 ^ 53"
    using round_b64_upper [of r] ru eta unfolding r1_def by linarith
  have r1l: "r - 2 / 2 ^ 53 \<le> r1"
    using round_b64_lower [of r] ru eta unfolding r1_def by linarith
  define s where "s = 1 + r1"
  have small: "(1::real) / 2 ^ 53 \<le> 1 / 8" by simp
  have s: "3 / 4 \<le> s" "s \<le> 9 / 4" using r1u r1l r small by (simp_all add: s_def)
  define f where "f = round_b64 s"
  have "\<bar>s\<bar> \<le> 2 ^ 1003" using s by simp
  then have d2: "dadd (Num 1) (Num r1) = Num f" by (simp add: s_def f_def to_double_Num)
  have su: "\<bar>s\<bar> / 2 ^ 53 \<le> 3 / 2 ^ 53" using s by (simp add: divide_right_mono)
  have fu: "f \<le> s + 4 / 2 ^ 53"
    using round_b64_upper [of s] su eta unfolding f_def by linarith
  have fl: "s - 4 / 2 ^ 53 \<le> f"
    using round_b64_lower [of s] su eta unfolding f_def by linarith
  have "1 + i / 12 - 7 / 2 ^ 53 \<le> f"
    using fl r1l by (simp add: s_def r_def)
  moreover have "f \<le> 3" using fu s small by linarith
  ultimately show ?thesis using d1 d2 by simp
qed

lemma monthly_factor_f64:
  assumes "0 \<le> i" and "i \<le> 12"
  shows "\<exists>f. dadd (Num 1) (ddiv12 (Num i)) = Num f \<and> 0 < f \<and> f \<le> 1 + i / 12 + 7 / 2 ^ 53"
proof -
  define r where "r = i / 12"
  have r: "0 \<le> r" "r \<le> 1" using assms by (simp_all add: r_def)
  define r1 where "r1 = round_b64 r"
  have "\<bar>r\<bar> \<le> 2 ^ 1003" using r by simp
  then have d1: "ddiv12 (Num i) = Num r1" by (simp add: r_def r1_def to_double_Num)
  have eta: "(1::real) / 2 ^ 1075 \<le> 1 / 2 ^ 53" by simp
  have ru: "\<bar>r\<bar> / 2 ^ 53 \<le> 1 / 2 ^ 53" using r by (simp add: divide_right_mono)
  have rl: "\<bar>r\<bar> / 2 ^ 53 \<le> r" using r by (simp add: divide_le_eq)
  have r1u: "r1 \<le> r + 2 / 2 ^ 53"
    using round_b64_upper [of r] ru eta unfolding r1_def by linarith
  have r1l: "- (1 / 2 ^ 53) \<le> r1"
    using round_b64_lower [of r] rl eta unfolding r1_def by linarith
  define s where "s = 1 + r1"
  have small: "(1::real) / 2 ^ 53 \<le> 1 / 4" by simp
  have s: "3 / 4 \<le> s" "s \<le> 3" using r1u r1l r small by (simp_all add: s_def)
  define f where "f = round_b64 s"
  have "\<bar>s\<bar> \<le> 2 ^ 1003" using s by simp
  then have d2: "dadd (Num 1) (Num r1) = Num f" by (simp add: s_def f_def to_double_Num)
  have su: "\<bar>s\<bar> / 2 ^ 53 \<le> 3 / 2 ^ 53" using s by (simp add: divide_right_mono)
  have sl: "\<bar>s\<bar> / 2 ^ 53 \<le> 1 / 4" using su by simp
  have fu: "f \<le> s + 4 / 2 ^ 53"
    using round_b64_upper [of s] su eta unfolding f_def by linarith
  have fl: "s - 1 / 2 \<le> f"
    using round_b64_lower [of s] sl eta small unfolding f_def by linarith
  have "0 < f" using fl s by linarith
  moreover have "f \<le> 1 + i / 12 + 7 / 2 ^ 53"
    using fu r1u by (simp add: s_def r_def)
  ultimately show ?thesis using d1 d2 by simp
qed


section \<open>The loan terms are not checked\<close>

lemma payoff_loop_f64_month:
  assumes "payoff_loop_f64 p i debt month = Some y"
  shows "month \<le> y"
  using assms
proof (induction p i debt month y
        rule: payoff_loop_f64.raw_induct [rotated 1, consumes 1, case_names 1])
  case (1 f p i debt month y)
  show ?case
  proof (cases "gt0 debt")
    case True
    with 1(2) have "f p i (new_bal_f64 p i debt) (month + 1) = Some y" by simp
    from 1(1) [OF this] show ?thesis by simp
  next
    case False
    with 1(2) show ?thesis by simp
  qed
qed

lemma payoff_nmonths_f64_iterates:
  assumes "gt0 debt_amount"
  shows "payoff_nmonths_f64 debt_amount p i \<noteq> Some 0"
proof
  assume "payoff_nmonths_f64 debt_amount p i = Some 0"
  then have "payoff_loop_f64 p i debt_amount 0 = Some 0" by (simp add: payoff_nmonths_f64_def)
  then have "payoff_loop_f64 p i (new_bal_f64 p i debt_amount) (0 + 1) = Some 0"
    using assms by (subst (asm) payoff_loop_f64.simps) simp
  from payoff_loop_f64_month [OF this] show False by simp
qed

text \<open>Once the loop body has run, \<^verbatim>\<open>new_bal\<close> is bound.\<close>

lemma debt_schedule_loop_f64_new_bal:
  assumes "debt_schedule_loop_f64 p i sched debt month paid nb = Some r"
  shows "nb \<noteq> None \<or> gt0 debt \<longrightarrow> snd (snd (snd r)) \<noteq> None"
  using assms
proof (induction p i sched debt month paid nb r
        rule: debt_schedule_loop_f64.raw_induct [rotated 1, consumes 1, case_names 1])
  case (1 f p i sched debt month paid nb r)
  show ?case
  proof (cases "gt0 debt")
    case True
    with 1(2) have "f p i (sched @ [new_bal_f64 p i debt]) (new_bal_f64 p i debt)
        (month + 1) (paid @ [p]) (Some (new_bal_f64 p i debt)) = Some r" by simp
    from 1(1) [OF this] show ?thesis by simp
  next
    case False
    with 1(2) show ?thesis by auto
  qed
qed

lemma debt_schedule_f64_raises_nothing:
  assumes "gt0 debt_amount"
  shows "debt_schedule_f64 s debt_amount i p \<noteq> Some (Inl e)"
proof (cases "debt_schedule_loop_f64 p i [debt_amount] debt_amount 0 [Num 0] None")
  case None
  then show ?thesis by (simp add: debt_schedule_f64_def)
next
  case (Some r)
  from debt_schedule_loop_f64_new_bal [OF this] assms have "snd (snd (snd r)) \<noteq> None" by simp
  then show ?thesis
    using Some by (cases r) (auto simp add: debt_schedule_f64_def)
qed

text \<open>
  Claim C1, as the code has it. The code has no check of the loan terms and no error for
  them: both functions go straight into the loop. For a loan with \<open>principal > 0\<close>,
  \<open>annual_rate \<ge> 0\<close> and \<open>payment \<le> principal * annual_rate / 12\<close>, the loop body of
  \<^verbatim>\<open>payoff_nmonths\<close> runs at least once (the result is never 0 months) and
  \<^verbatim>\<open>debt_schedule\<close> raises nothing: each call returns a result or keeps iterating.
\<close>

theorem no_loan_terms_check:
  assumes "0 < debt_amount" and "0 \<le> int_rate"
    and "debt_payment \<le> debt_amount * int_rate / 12"
  shows "payoff_nmonths_f64 (Num debt_amount) (Num debt_payment) (Num int_rate) \<noteq> Some 0 \<and>
         (\<forall>e. debt_schedule_f64 start_date (Num debt_amount) (Num int_rate) (Num debt_payment)
                 \<noteq> Some (Inl e))"
proof -
  have "gt0 (Num debt_amount)" using assms(1) by simp
  from payoff_nmonths_f64_iterates [OF this] debt_schedule_f64_raises_nothing [OF this]
  show ?thesis by simp
qed

theorem no_loan_terms_check_witness:
  "(0::real) < 1000 \<and> (0::real) \<le> 24 / 100 \<and> (20::real) \<le> 1000 * (24 / 100) / 12 \<and>
   payoff_nmonths_f64 (Num 1000) (Num 20) (Num (24 / 100)) \<noteq> Some 0 \<and>
   (\<forall>e. debt_schedule_f64 0 (Num 1000) (Num (24 / 100)) (Num 20) \<noteq> Some (Inl e))"
  using no_loan_terms_check [of 1000 "24 / 100" 20 0] by simp

lemma at_least_1000_gt0: "at_least_1000 debt \<Longrightarrow> gt0 debt"
  by (cases debt) (simp_all add: at_least_1000_def)

text \<open>
  The literal \<^verbatim>\<open>0.24\<close> is the double nearest to 24/100. With it the monthly factor
  \<^verbatim>\<open>1. + int_rate / 12.\<close> is at least 1.019, and a balance of at least 1000 does not
  fall under a payment of 10; past the largest double it is an infinity and stays one.
\<close>

lemma rate_024:
  "\<exists>a. to_double (24 / 100) = Num a \<and> 0 \<le> a \<and> a \<le> 12 \<and> 239 / 1000 \<le> a"
proof -
  have "\<bar>24 / 100 :: real\<bar> \<le> 2 ^ 1003" by simp
  then have a: "to_double (24 / 100) = Num (round_b64 (24 / 100))" by (rule to_double_Num)
  have e: "(1::real) / 2 ^ 1075 \<le> 1 / 10000" "\<bar>24 / 100 :: real\<bar> / 2 ^ 53 \<le> 1 / 10000" by simp_all
  have l: "239 / 1000 \<le> round_b64 (24 / 100)"
    using round_b64_lower [of "24 / 100"] e by linarith
  have u: "round_b64 (24 / 100) \<le> 12"
    using round_b64_upper [of "24 / 100"] e by linarith
  from a l u show ?thesis by auto
qed

lemma new_bal_f64_grows:
  assumes f: "dadd (Num 1) (ddiv12 i) = Num f" and fl: "1019 / 1000 \<le> f"
    and inv: "at_least_1000 debt"
  shows "at_least_1000 (new_bal_f64 (Num 10) i debt)"
proof (cases debt)
  case PosInf
  then show ?thesis using fl by (simp add: new_bal_f64_def f dsub_def at_least_1000_def)
next
  case (Num d)
  with inv have d: "1000 \<le> d" by (simp add: at_least_1000_def)
  define eta :: real where "eta = 1 / 2 ^ 1075"
  have eta: "0 < eta" "eta \<le> 1 / 1000" by (simp_all add: eta_def)
  define x where "x = d * f"
  have "d * (1019 / 1000) \<le> d * f" using fl d by (intro mult_left_mono) simp_all
  then have xl: "1019 * d / 1000 \<le> x" by (simp add: x_def)
  then have x0: "0 < x" using d by linarith
  define r where "r = round_b64 x"
  have rl: "x - x / 9007199254740992 - eta \<le> r"
    using round_b64_lower [of x] x0 by (simp add: r_def eta_def)
  have xK: "x / 9007199254740992 \<le> x / 1000000" using x0 by (simp add: field_simps)
  have r0: "0 < r" using rl xK xl d eta by linarith
  define t where "t = r + - 10"
  have t0: "0 < t" using rl xK xl d eta unfolding t_def by linarith
  define nr where "nr = round_b64 t"
  have nl: "t - t / 9007199254740992 - eta \<le> nr"
    using round_b64_lower [of t] t0 by (simp add: nr_def eta_def)
  have tK: "t / 9007199254740992 \<le> t / 1000000" using t0 by (simp add: field_simps)
  have r1: "1018 * d / 1000 \<le> r" using rl xK xl d eta by linarith
  have t1: "1008 * d / 1000 \<le> t" using r1 d unfolding t_def by linarith
  have nd: "d \<le> nr" using nl tK t1 d eta by linarith
  then have n0: "0 < nr" using d by linarith
  have mul: "dmul (Num d) (Num f) = PosInf \<or> dmul (Num d) (Num f) = Num r"
    using to_double_pos [of x] r0 by (simp add: x_def r_def)
  have sub: "dsub (Num r) (Num 10) = PosInf \<or> dsub (Num r) (Num 10) = Num nr"
    using to_double_pos [of t] n0 by (simp add: dsub_def t_def nr_def)
  have "new_bal_f64 (Num 10) i debt = dsub (dmul (Num d) (Num f)) (Num 10)"
    by (simp only: new_bal_f64_def f Num)
  with mul sub nd d show ?thesis
    by (auto simp add: at_least_1000_def dsub_def)
qed (use inv in \<open>simp_all add: at_least_1000_def\<close>)

lemma factor_024:
  "\<exists>f. dadd (Num 1) (ddiv12 (to_double (24 / 100))) = Num f \<and> 1019 / 1000 \<le> f"
proof -
  from rate_024 obtain a where a: "to_double (24 / 100) = Num a" "0 \<le> a" "a \<le> 12" "239 / 1000 \<le> a"
    by blast
  from monthly_factor_f64_lower [OF a(2,3)] obtain f where
    f: "dadd (Num 1) (ddiv12 (Num a)) = Num f" and fl: "1 + a / 12 - 7 / 2 ^ 53 \<le> f"
    by blast
  have "(7::real) / 2 ^ 53 \<le> 1 / 10000" by simp
  then have "1019 / 1000 \<le> f" using fl a(4) by linarith
  with f a(1) show ?thesis by auto
qed

lemma payoff_loop_f64_grows:
  assumes "payoff_loop_f64 p i debt month = Some y"
  shows "\<not> (p = Num 10 \<and> i = to_double (24 / 100) \<and> at_least_1000 debt)"
  using assms
proof (induction p i debt month y
        rule: payoff_loop_f64.raw_induct [rotated 1, consumes 1, case_names 1])
  case (1 g p i debt month y)
  show ?case
  proof
    assume inv: "p = Num 10 \<and> i = to_double (24 / 100) \<and> at_least_1000 debt"
    then have "gt0 debt" by (simp add: at_least_1000_gt0)
    with 1(2) have "g p i (new_bal_f64 p i debt) (month + 1) = Some y" by simp
    from 1(1) [OF this] inv have "\<not> at_least_1000 (new_bal_f64 (Num 10) (to_double (24 / 100)) debt)"
      by simp
    moreover from factor_024 obtain f where
      "dadd (Num 1) (ddiv12 (to_double (24 / 100))) = Num f" "1019 / 1000 \<le> f" by blast
    then have "at_least_1000 (new_bal_f64 (Num 10) (to_double (24 / 100)) debt)"
      using inv by (intro new_bal_f64_grows) simp_all
    ultimately show False by simp
  qed
qed

lemma debt_schedule_loop_f64_grows:
  assumes "debt_schedule_loop_f64 p i sched debt month paid nb = Some r"
  shows "\<not> (p = Num 10 \<and> i = to_double (24 / 100) \<and> at_least_1000 debt)"
  using assms
proof (induction p i sched debt month paid nb r
        rule: debt_schedule_loop_f64.raw_induct [rotated 1, consumes 1, case_names 1])
  case (1 g p i sched debt month paid nb r)
  show ?case
  proof
    assume inv: "p = Num 10 \<and> i = to_double (24 / 100) \<and> at_least_1000 debt"
    then have "gt0 debt" by (simp add: at_least_1000_gt0)
    with 1(2) have "g p i (sched @ [new_bal_f64 p i debt]) (new_bal_f64 p i debt) (month + 1)
        (paid @ [p]) (Some (new_bal_f64 p i debt)) = Some r" by simp
    from 1(1) [OF this] inv have "\<not> at_least_1000 (new_bal_f64 (Num 10) (to_double (24 / 100)) debt)"
      by simp
    moreover from factor_024 obtain f where
      "dadd (Num 1) (ddiv12 (to_double (24 / 100))) = Num f" "1019 / 1000 \<le> f" by blast
    then have "at_least_1000 (new_bal_f64 (Num 10) (to_double (24 / 100)) debt)"
      using inv by (intro new_bal_f64_grows) simp_all
    ultimately show False by simp
  qed
qed

text \<open>
  Claim C1 as stated fails at its own call, \<open>principal = 1000\<close>, \<open>annual_rate = 0.24\<close>,
  \<open>payment = 10\<close>: no error is raised, the loops do not end.
\<close>

theorem invalid_terms_not_detected:
  "payoff_nmonths_f64 (Num 1000) (Num 10) (to_double (24 / 100)) = None \<and>
   debt_schedule_f64 0 (Num 1000) (to_double (24 / 100)) (Num 10) = None"
proof -
  have inv: "at_least_1000 (Num 1000)" by (simp add: at_least_1000_def)
  have a: "payoff_nmonths_f64 (Num 1000) (Num 10) (to_double (24 / 100)) = None"
  proof (cases "payoff_nmonths_f64 (Num 1000) (Num 10) (to_double (24 / 100))")
    case (Some y)
    then have "payoff_loop_f64 (Num 10) (to_double (24 / 100)) (Num 1000) 0 = Some y"
      by (simp add: payoff_nmonths_f64_def)
    from payoff_loop_f64_grows [OF this] inv show ?thesis by simp
  qed simp
  have b: "debt_schedule_loop_f64 (Num 10) (to_double (24 / 100)) [Num 1000] (Num 1000) 0
             [Num 0] None = None"
  proof (cases "debt_schedule_loop_f64 (Num 10) (to_double (24 / 100)) [Num 1000] (Num 1000) 0
             [Num 0] None")
    case (Some r)
    from debt_schedule_loop_f64_grows [OF this] inv show ?thesis by simp
  qed simp
  from a b show ?thesis by (simp add: debt_schedule_f64_def)
qed


section \<open>Termination in double arithmetic\<close>

text \<open>
  At a balance of \<open>10^16\<close> the doubles are 2 apart: with rate 0 and payment 1 the update
  \<open>10^16 * (1 + 0 / 12) - 1\<close> is the tie \<open>10^16 - 1\<close>, which rounds back to \<open>10^16\<close>.
\<close>

lemma payoff_loop_f64_stuck:
  assumes "payoff_loop_f64 p i debt month = Some y"
  shows "\<not> (p = Num 1 \<and> i = Num 0 \<and> debt = Num 10000000000000000)"
  using assms
proof (induction p i debt month y
        rule: payoff_loop_f64.raw_induct [rotated 1, consumes 1, case_names 1])
  case (1 f p i debt month y)
  show ?case
  proof
    assume inv: "p = Num 1 \<and> i = Num 0 \<and> debt = Num 10000000000000000"
    with 1(2) have "f p i (new_bal_f64 p i debt) (month + 1) = Some y" by simp
    from 1(1) [OF this] inv show False by (simp add: new_bal_f64_absorbed)
  qed
qed

lemma debt_schedule_loop_f64_stuck:
  assumes "debt_schedule_loop_f64 p i sched debt month paid nb = Some r"
  shows "\<not> (p = Num 1 \<and> i = Num 0 \<and> debt = Num 10000000000000000)"
  using assms
proof (induction p i sched debt month paid nb r
        rule: debt_schedule_loop_f64.raw_induct [rotated 1, consumes 1, case_names 1])
  case (1 f p i sched debt month paid nb r)
  show ?case
  proof
    assume inv: "p = Num 1 \<and> i = Num 0 \<and> debt = Num 10000000000000000"
    with 1(2) have "f p i (sched @ [new_bal_f64 p i debt]) (new_bal_f64 p i debt) (month + 1)
        (paid @ [p]) (Some (new_bal_f64 p i debt)) = Some r" by simp
    from 1(1) [OF this] inv show False by (simp add: new_bal_f64_absorbed)
  qed
qed

text \<open>
  Claim C4 as stated fails at the valid loan \<open>principal = 10^16\<close>, \<open>annual_rate = 0\<close>,
  \<open>payment = 1\<close>: the balance never changes, and neither function returns.
\<close>

theorem absorbed_payment_never_returns:
  "(0::real) < 10000000000000000 \<and> (0::real) \<le> 0 \<and> (1::real) > 10000000000000000 * 0 / 12 \<and>
   payoff_nmonths_f64 (Num 10000000000000000) (Num 1) (Num 0) = None \<and>
   debt_schedule_f64 0 (Num 10000000000000000) (Num 0) (Num 1) = None"
proof -
  have a: "payoff_nmonths_f64 (Num 10000000000000000) (Num 1) (Num 0) = None"
  proof (cases "payoff_nmonths_f64 (Num 10000000000000000) (Num 1) (Num 0)")
    case (Some y)
    then have "payoff_loop_f64 (Num 1) (Num 0) (Num 10000000000000000) 0 = Some y"
      by (simp add: payoff_nmonths_f64_def)
    from payoff_loop_f64_stuck [OF this] show ?thesis by simp
  qed simp
  have b: "debt_schedule_loop_f64 (Num 1) (Num 0) [Num 10000000000000000]
      (Num 10000000000000000) 0 [Num 0] None = None"
  proof (cases "debt_schedule_loop_f64 (Num 1) (Num 0) [Num 10000000000000000]
      (Num 10000000000000000) 0 [Num 0] None")
    case (Some r)
    from debt_schedule_loop_f64_stuck [OF this] show ?thesis by simp
  qed simp
  from a b show ?thesis by (simp add: debt_schedule_f64_def)
qed

text \<open>
  With a payment that exceeds the first period's interest by the margin
  \<open>principal / 2 ^ 48 + 1 / 2 ^ 1000\<close>, every rounded update of a balance in
  \<open>(0, principal]\<close> is below it by at least \<open>1 / 2 ^ 1002\<close>.
\<close>

lemma new_bal_f64_decreases:
  assumes D: "0 < D" "D \<le> 2 ^ 1000" and i: "0 \<le> i" "i \<le> 12"
    and p: "D * (i / 12 + 1 / 2 ^ 48) + 1 / 2 ^ 1000 \<le> p" "p \<le> 2 ^ 1000"
    and d: "0 < d" "d \<le> D"
  shows "\<exists>nb. new_bal_f64 (Num p) (Num i) (Num d) = Num nb \<and> nb \<le> d - 1 / 2 ^ 1002"
proof -
  from monthly_factor_f64 [OF i] obtain f where
    fd: "dadd (Num 1) (ddiv12 (Num i)) = Num f" and f0: "0 < f"
    and fu: "f \<le> 1 + i / 12 + 7 / 2 ^ 53"
    by blast
  define x1 where "x1 = d * f"
  have x0: "0 < x1" using d f0 by (simp add: x1_def)
  have "d * f \<le> d * (1 + i / 12 + 7 / 2 ^ 53)"
    using fu d by (simp add: mult_left_mono)
  then have F1: "x1 \<le> d + (d * i) / 12 + 7 * d / 2 ^ 53"
    by (simp add: x1_def algebra_simps)
  have F2: "d * i \<le> D * i" using d i by (simp add: mult_right_mono)
  have F3: "D * i \<le> 12 * D" using D i by (simp add: mult_left_mono mult.commute)
  have P: "(D * i) / 12 + D / 2 ^ 48 + 1 / 2 ^ 1000 \<le> p"
    using p(1) by (simp add: algebra_simps)
  have "0 \<le> D * i" using D(1) i(1) by simp
  then have "0 \<le> (D * i) / 12" by simp
  moreover have "0 \<le> D / 2 ^ 48" using D(1) by simp
  moreover have "(0::real) \<le> 1 / 2 ^ 1000" by simp
  ultimately have p0: "0 \<le> p" using P by linarith
  have s7: "7 * d / 2 ^ 53 \<le> d" using d(1) by simp
  have x1le: "x1 \<le> 3 * D" using F1 F2 F3 s7 d by linarith
  have big: "(3::real) * 2 ^ 1000 \<le> 2 ^ 1003" "(7::real) * 2 ^ 1000 + 1 \<le> 2 ^ 1003" by simp_all
  have "\<bar>x1\<bar> \<le> 2 ^ 1003" using x0 x1le D big by linarith
  define m where "m = round_b64 x1"
  have dm: "dmul (Num d) (Num f) = Num m"
    using \<open>\<bar>x1\<bar> \<le> 2 ^ 1003\<close> by (simp add: x1_def m_def to_double_Num)
  have ax: "\<bar>x1\<bar> = x1" using x0 by simp
  have mu: "m \<le> x1 + x1 / 2 ^ 53 + 1 / 2 ^ 1075"
    using round_b64_upper [of x1] unfolding m_def ax .
  have ml: "x1 - x1 / 2 ^ 53 - 1 / 2 ^ 1075 \<le> m"
    using round_b64_lower [of x1] unfolding m_def ax .
  have xs: "x1 / 2 ^ 53 \<le> x1" using x0 by (simp add: divide_le_eq)
  have e1: "(1::real) / 2 ^ 1075 \<le> 1" by simp
  define t where "t = m + - p"
  have trange: "\<bar>t\<bar> \<le> 2 ^ 1003"
    using mu ml xs e1 x0 x1le D p(2) p0 big unfolding t_def by linarith
  define nb where "nb = round_b64 t"
  have "new_bal_f64 (Num p) (Num i) (Num d) = dadd (dmul (Num d) (Num f)) (dneg (Num p))"
    by (simp only: new_bal_f64_def dsub_def fd)
  also have "\<dots> = dadd (Num m) (Num (- p))" by (simp only: dm dneg.simps)
  also have "\<dots> = to_double t" by (simp only: dadd.simps t_def)
  also have "\<dots> = Num nb" using trange by (simp only: to_double_Num nb_def)
  finally have nbd: "new_bal_f64 (Num p) (Num i) (Num d) = Num nb" .
  have nbu: "nb \<le> t + \<bar>t\<bar> / 2 ^ 53 + 1 / 2 ^ 1075"
    using round_b64_upper [of t] unfolding nb_def .
  define eta :: real where "eta = 1 / 2 ^ 1075"
  define c :: real where "c = 1 / 2 ^ 1000"
  have ec: "eta \<le> c / 4" "0 < eta" by (simp_all add: eta_def c_def)
  have c4: "c / 4 = 1 / 2 ^ 1002" by (simp add: c_def)
  have mu': "m \<le> x1 + x1 / 9007199254740992 + eta" using mu by (simp add: eta_def)
  have F1': "x1 \<le> d + d * i / 12 + 7 * d / 9007199254740992" using F1 by simp
  have P': "D * i / 12 + D / 281474976710656 + c \<le> p" using P by (simp add: c_def)
  have nbu': "nb \<le> t + \<bar>t\<bar> / 9007199254740992 + eta" using nbu by (simp add: eta_def)
  have xK: "x1 / 9007199254740992 \<le> 9 * D / 9007199254740992"
  proof -
    have "x1 \<le> 9 * D" using x1le D(1) by linarith
    then show ?thesis by (simp add: divide_right_mono)
  qed
  have m1: "m \<le> d + d * i / 12 + 16 * D / 9007199254740992 + eta"
    using mu' F1' xK d by linarith
  have tT: "t \<le> d - 16 * D / 9007199254740992 + eta - c"
    using m1 F2 P' unfolding t_def by linarith
  have tK: "\<bar>t\<bar> / 9007199254740992 \<le> \<bar>t\<bar>" by (simp add: divide_le_eq)
  have "nb \<le> d - c / 4"
  proof (cases "0 \<le> t")
    case True
    then have "t / 9007199254740992 \<le> (d + eta) / 9007199254740992"
      using tT D(1) ec by (intro divide_right_mono) linarith+
    also have "\<dots> \<le> D / 9007199254740992 + eta"
      using d ec by (simp add: field_simps)
    finally have "\<bar>t\<bar> / 9007199254740992 \<le> D / 9007199254740992 + eta"
      using True by simp
    then show ?thesis using nbu' tT ec D(1) by linarith
  next
    case False
    have "\<bar>t\<bar> / 9007199254740992 = - t / 9007199254740992" using False by simp
    then have "nb \<le> t - t / 9007199254740992 + eta" using nbu' by linarith
    then show ?thesis using tT d(1) D(1) ec by linarith
  qed
  then have "nb \<le> d - 1 / 2 ^ 1002" by (simp only: c4)
  with nbd show ?thesis by blast
qed

lemma loops_f64_run:
  assumes D: "0 < D" "D \<le> 2 ^ 1000" and i: "0 \<le> i" "i \<le> 12"
    and p: "D * (i / 12 + 1 / 2 ^ 48) + 1 / 2 ^ 1000 \<le> p" "p \<le> 2 ^ 1000"
  shows "d \<le> D \<Longrightarrow> d \<le> real n * (1 / 2 ^ 1002) \<Longrightarrow>
     (\<exists>k. payoff_loop_f64 (Num p) (Num i) (Num d) month = Some k) \<and>
     (\<exists>r. debt_schedule_loop_f64 (Num p) (Num i) sched (Num d) month paid nb = Some r)"
proof (induction n arbitrary: d month sched paid nb)
  case 0
  then have "\<not> gt0 (Num d)" by simp
  then show ?case
    by (simp add: payoff_loop_f64.simps debt_schedule_loop_f64.simps)
next
  case (Suc n)
  show ?case
  proof (cases "0 < d")
    case False
    then have "\<not> gt0 (Num d)" by simp
    then show ?thesis
      by (simp add: payoff_loop_f64.simps debt_schedule_loop_f64.simps)
  next
    case True
    from new_bal_f64_decreases [OF D i p True Suc.prems(1)] obtain new where
      nb: "new_bal_f64 (Num p) (Num i) (Num d) = Num new" and dec: "new \<le> d - 1 / 2 ^ 1002"
      by blast
    have "(0::real) < 1 / 2 ^ 1002" by simp
    then have le: "new \<le> D" using dec Suc.prems(1) by linarith
    have "d \<le> real n * (1 / 2 ^ 1002) + 1 / 2 ^ 1002"
      using Suc.prems(2) by (simp add: algebra_simps)
    then have fuel: "new \<le> real n * (1 / 2 ^ 1002)" using dec by linarith
    from Suc.IH [OF le fuel, of "month + 1" "sched @ [Num new]" "paid @ [Num p]" "Some (Num new)"]
    obtain k r where
      a: "payoff_loop_f64 (Num p) (Num i) (Num new) (month + 1) = Some k"
      and b: "debt_schedule_loop_f64 (Num p) (Num i) (sched @ [Num new]) (Num new) (month + 1)
                (paid @ [Num p]) (Some (Num new)) = Some r"
      by blast
    have g: "gt0 (Num d)" using True by simp
    have A: "payoff_loop_f64 (Num p) (Num i) (Num d) month = Some k"
      using a g by (subst payoff_loop_f64.simps) (simp add: nb)
    have B: "debt_schedule_loop_f64 (Num p) (Num i) sched (Num d) month paid nb = Some r"
      using b g by (subst debt_schedule_loop_f64.simps) (simp add: nb)
    from A B show ?thesis by blast
  qed
qed

text \<open>
  Claim C4, as the code has it. For a loan with \<open>0 < principal \<le> 2 ^ 1000\<close>,
  \<open>0 \<le> annual_rate \<le> 12\<close> and
  \<open>principal * (annual_rate / 12 + 1 / 2 ^ 48) + 1 / 2 ^ 1000 \<le> payment \<le> 2 ^ 1000\<close>, the
  balance update of the code, each operation rounded to a double, reaches a balance \<open>\<le> 0\<close>
  after finitely many steps: \<^verbatim>\<open>payoff_nmonths\<close> returns a number of months and
  \<^verbatim>\<open>debt_schedule\<close> returns a frame.
\<close>

theorem loops_terminate_with_margin:
  assumes "0 < debt_amount" and "debt_amount \<le> 2 ^ 1000"
    and "0 \<le> int_rate" and "int_rate \<le> 12"
    and "debt_amount * (int_rate / 12 + 1 / 2 ^ 48) + 1 / 2 ^ 1000 \<le> debt_payment"
    and "debt_payment \<le> 2 ^ 1000"
  shows "(\<exists>n. payoff_nmonths_f64 (Num debt_amount) (Num debt_payment) (Num int_rate) = Some n) \<and>
         (\<exists>df. debt_schedule_f64 start_date (Num debt_amount) (Num int_rate) (Num debt_payment)
                  = Some (Inr df))"
proof -
  have pos: "(0::real) < 1 / 2 ^ 1002" by simp
  have "debt_amount / (1 / 2 ^ 1002) \<le> real (nat \<lceil>debt_amount / (1 / 2 ^ 1002)\<rceil>)"
    by linarith
  then have fuel: "debt_amount \<le> real (nat \<lceil>debt_amount / (1 / 2 ^ 1002)\<rceil>) * (1 / 2 ^ 1002)"
    using pos by (simp only: pos_divide_le_eq)
  from loops_f64_run [OF assms order_refl fuel, of 0 "[Num debt_amount]" "[Num 0]" None]
  obtain k r where
    k: "payoff_loop_f64 (Num debt_payment) (Num int_rate) (Num debt_amount) 0 = Some k"
    and r: "debt_schedule_loop_f64 (Num debt_payment) (Num int_rate) [Num debt_amount]
              (Num debt_amount) 0 [Num 0] None = Some r"
    by blast
  have g: "gt0 (Num debt_amount)" using assms(1) by simp
  obtain sched month paid nb where r_eq: "r = (sched, month, paid, nb)" by (cases r)
  from debt_schedule_loop_f64_new_bal [OF r] g have "nb \<noteq> None" by (simp add: r_eq)
  then obtain x where nb: "nb = Some x" by auto
  have "\<exists>df. debt_schedule_f64 start_date (Num debt_amount) (Num int_rate) (Num debt_payment)
                  = Some (Inr df)"
    by (simp add: debt_schedule_f64_def r r_eq nb)
  with k show ?thesis by (simp add: payoff_nmonths_f64_def)
qed

theorem loops_terminate_with_margin_witness:
  "(0::real) < 1200 \<and> (1200::real) \<le> 2 ^ 1000 \<and> (0::real) \<le> 12 / 100 \<and> (12 / 100 :: real) \<le> 12 \<and>
   (1200::real) * (12 / 100 / 12 + 1 / 2 ^ 48) + 1 / 2 ^ 1000 \<le> 103 \<and> (103::real) \<le> 2 ^ 1000 \<and>
   (\<exists>n. payoff_nmonths_f64 (Num 1200) (Num 103) (Num (12 / 100)) = Some n) \<and>
   (\<exists>df. debt_schedule_f64 0 (Num 1200) (Num (12 / 100)) (Num 103) = Some (Inr df))"
proof -
  have h: "(0::real) < 1200" "(1200::real) \<le> 2 ^ 1000" "(0::real) \<le> 12 / 100" "(12 / 100 :: real) \<le> 12"
    "(1200::real) * (12 / 100 / 12 + 1 / 2 ^ 48) + 1 / 2 ^ 1000 \<le> 103" "(103::real) \<le> 2 ^ 1000"
    by simp_all
  from loops_terminate_with_margin [OF h, of 0] h show ?thesis by blast
qed

end
